theory Spec2Isabelle
  imports Main "HOL-Library.Char_ord" "HOL-Library.List_Lexorder" "HOL-Library.Sublist"
begin

section \<open>Byte strings and the standard-library helpers the index code calls\<close>

text \<open>
  A Go \<open>[]byte\<close> is a list of 8-bit characters; a Go \<open>string\<close> converts to it byte by byte,
  so both are modelled as \<open>char list\<close>. The order on \<open>char\<close> is the unsigned byte order and
  the order on lists is the lexicographic one, which is what \<open>bytes.Compare\<close> computes.
\<close>

type_synonym bytes = "char list"

fun bytes_Compare :: "bytes \<Rightarrow> bytes \<Rightarrow> int" where
  "bytes_Compare [] [] = 0"
| "bytes_Compare [] (y # ys) = - 1"
| "bytes_Compare (x # xs) [] = 1"
| "bytes_Compare (x # xs) (y # ys) =
     (if x < y then - 1 else if y < x then 1 else bytes_Compare xs ys)"

definition bytes_Equal :: "bytes \<Rightarrow> bytes \<Rightarrow> bool" where
  "bytes_Equal a b = (a = b)"

definition bytes_HasPrefix :: "bytes \<Rightarrow> bytes \<Rightarrow> bool" where
  "bytes_HasPrefix s p = (length p \<le> length s \<and> take (length p) s = p)"

text \<open>
  \<open>sort.Search(n, f)\<close>: the binary search of the Go standard library,
  \<^verbatim>\<open>i, j := 0, n; for i < j { h := int(uint(i+j) >> 1); if !f(h) { i = h + 1 } else { j = h } }; return i\<close>.
  Slice lengths are far below the range of \<open>uint\<close>, so \<open>i + j\<close> does not wrap and the
  indices are natural numbers.
\<close>

function Search_loop :: "(nat \<Rightarrow> bool) \<Rightarrow> nat \<Rightarrow> nat \<Rightarrow> nat" where
  "Search_loop f i j =
     (if i < j then
        (let h = (i + j) div 2 in
         if \<not> f h then Search_loop f (h + 1) j else Search_loop f i h)
      else i)"
  by pat_completeness auto
termination
  by (relation "measure (\<lambda>(f, i, j). j - i)") auto

declare Search_loop.simps [simp del]

definition Search :: "nat \<Rightarrow> (nat \<Rightarrow> bool) \<Rightarrow> nat" where
  "Search n f = Search_loop f 0 n"

text \<open>
  The builtin \<open>copy(dst, src)\<close> overwrites the first \<open>min (len dst) (len src)\<close> elements of
  \<open>dst\<close> with those of \<open>src\<close> (as if through a temporary, so overlapping slices are fine).
\<close>

definition copy :: "'a list \<Rightarrow> 'a list \<Rightarrow> 'a list" where
  "copy dst src = take (length dst) src @ drop (length src) dst"

section \<open>keyList\<close>

type_synonym keyList = "bytes list"

text \<open>
  \<open>add\<close>: search the insertion point, return if the key is there, otherwise grow the slice
  by one \<open>nil\<close>, shift the tail right by one and store the key at \<open>i\<close>.
\<close>

definition keyList_add :: "keyList \<Rightarrow> bytes \<Rightarrow> keyList" where
  "keyList_add v key =
     (let i = Search (length v) (\<lambda>i. bytes_Compare (v ! i) key \<ge> 0) in
      if i < length v \<and> bytes_Equal (v ! i) key then v
      else
        (let v1 = v @ [[]];
             v2 = take (i + 1) v1 @ copy (drop (i + 1) v1) (drop i v1)
         in v2[i := key]))"

text \<open>
  \<open>remove\<close>: search the same point and, whenever it lies inside the slice, shift the tail
  left over it and cut the last element off. There is no comparison of the element found
  with the key.
\<close>

definition keyList_remove :: "keyList \<Rightarrow> bytes \<Rightarrow> keyList" where
  "keyList_remove v key =
     (let i = Search (length v) (\<lambda>i. bytes_Compare (v ! i) key \<ge> 0) in
      if i < length v then
        (let v1 = take i v @ copy (drop i v) (drop (i + 1) v);
             v2 = v1[length v1 - 1 := []]
         in take (length v2 - 1) v2)
      else v)"

definition keyList_in :: "keyList \<Rightarrow> bytes \<Rightarrow> bool" where
  "keyList_in v key =
     (let i = Search (length v) (\<lambda>i. bytes_Compare (v ! i) key \<ge> 0) in
      i < length v \<and> bytes_Equal (v ! i) key)"

text \<open>Sequences of operations on a key list, applied left to right.\<close>

datatype keyOp = Add bytes | Remove bytes

fun apply_keyOp :: "keyList \<Rightarrow> keyOp \<Rightarrow> keyList" where
  "apply_keyOp v (Add k) = keyList_add v k"
| "apply_keyOp v (Remove k) = keyList_remove v k"

definition run_keyOps :: "keyOp list \<Rightarrow> keyList" where
  "run_keyOps ops = foldl apply_keyOp [] ops"

section \<open>The store, the codec and the other collaborators\<close>

text \<open>
  A Go \<open>error\<close> value; \<open>badger.ErrKeyNotFound\<close> is the one the index code tells apart.
\<close>

datatype error = ErrKeyNotFound | Err string

text \<open>
  A badger transaction, as far as the index code observes it: the key-value pairs it sees, in
  ascending key order (the order in which a badger iterator yields them), the writes made
  through it so far, and for each store call whether and how it fails (\<open>tx.Get\<close>,
  \<open>item.Value\<close>, \<open>tx.Set\<close>, \<open>tx.Delete\<close> each return an \<open>error\<close>).
\<close>

datatype write_op = SetOp bytes bytes | DeleteOp bytes

type_synonym Item = "bytes \<times> bytes"

record Txn =
  entries :: "Item list"
  writes :: "write_op list"
  getErr :: "bytes \<Rightarrow> error option"
  valueErr :: "bytes \<Rightarrow> error option"
  setErr :: "bytes \<Rightarrow> bytes \<Rightarrow> error option"
  deleteErr :: "bytes \<Rightarrow> error option"

fun entries_put :: "bytes \<Rightarrow> bytes \<Rightarrow> Item list \<Rightarrow> Item list" where
  "entries_put k v [] = [(k, v)]"
| "entries_put k v ((k', v') # rest) =
     (if k < k' then (k, v) # (k', v') # rest
      else if k = k' then (k, v) # rest
      else (k', v') # entries_put k v rest)"

definition entries_del :: "bytes \<Rightarrow> Item list \<Rightarrow> Item list" where
  "entries_del k es = filter (\<lambda>e. fst e \<noteq> k) es"

definition tx_Get :: "Txn \<Rightarrow> bytes \<Rightarrow> error + Item" where
  "tx_Get t k =
     (case getErr t k of
        Some e \<Rightarrow> Inl e
      | None \<Rightarrow> (case map_of (entries t) k of
                   None \<Rightarrow> Inl ErrKeyNotFound
                 | Some v \<Rightarrow> Inr (k, v)))"

text \<open>
  \<open>item.Value(fn)\<close> reads the value and passes it to \<open>fn\<close>; it returns the read error, or
  what \<open>fn\<close> returns. The callback's effect on the variables it captures is its result here.
\<close>

definition item_Value :: "(bytes \<Rightarrow> error option) \<Rightarrow> Item \<Rightarrow> (bytes \<Rightarrow> error + 'a) \<Rightarrow> error + 'a" where
  "item_Value verr item fn =
     (case verr (fst item) of
        Some e \<Rightarrow> Inl e
      | None \<Rightarrow> fn (snd item))"

definition tx_Set :: "Txn \<Rightarrow> bytes \<Rightarrow> bytes \<Rightarrow> error option \<times> Txn" where
  "tx_Set t k v =
     (case setErr t k v of
        Some e \<Rightarrow> (Some e, t)
      | None \<Rightarrow> (None, t\<lparr>entries := entries_put k v (entries t),
                          writes := writes t @ [SetOp k v]\<rparr>))"

definition tx_Delete :: "Txn \<Rightarrow> bytes \<Rightarrow> error option \<times> Txn" where
  "tx_Delete t k =
     (case deleteErr t k of
        Some e \<Rightarrow> (Some e, t)
      | None \<Rightarrow> (None, t\<lparr>entries := entries_del k (entries t),
                          writes := writes t @ [DeleteOp k]\<rparr>))"

text \<open>
  A badger iterator in forward order: the pairs it ranges over and the ones from its current
  position on. It is not positioned before the first \<open>Seek\<close>. \<open>Seek(key)\<close> moves to the first
  pair whose key is not below \<open>key\<close>; \<open>ValidForPrefix(p)\<close> holds when there is a current
  pair and its key starts with \<open>p\<close>.
\<close>

record Iterator =
  items :: "Item list"
  pos :: "Item list"
  itemErr :: "bytes \<Rightarrow> error option"

definition tx_NewIterator :: "Txn \<Rightarrow> Iterator" where
  "tx_NewIterator t = \<lparr>items = entries t, pos = [], itemErr = valueErr t\<rparr>"

definition iter_Seek :: "Iterator \<Rightarrow> bytes \<Rightarrow> Iterator" where
  "iter_Seek it k = it\<lparr>pos := dropWhile (\<lambda>e. fst e < k) (items it)\<rparr>"

definition iter_ValidForPrefix :: "Iterator \<Rightarrow> bytes \<Rightarrow> bool" where
  "iter_ValidForPrefix it p =
     (case pos it of [] \<Rightarrow> False | e # _ \<Rightarrow> bytes_HasPrefix (fst e) p)"

definition iter_Item :: "Iterator \<Rightarrow> Item" where
  "iter_Item it = hd (pos it)"

definition iter_Next :: "Iterator \<Rightarrow> Iterator" where
  "iter_Next it = it\<lparr>pos := tl (pos it)\<rparr>"

text \<open>
  The parts of the package that \<open>index.go\<close> calls and that live in its other files are
  parameters: \<open>typePrefix\<close> and the constant \<open>Key\<close>, the codec (\<open>encode\<close>, and \<open>decode\<close>
  once for each target type it is called with: a \<open>keyList\<close> and a record of the query's data
  type), \<open>matchesAllCriteria\<close> and \<open>hasMatchFunc\<close>. \<open>'d\<close> is the type of decoded records,
  \<open>'c\<close> the type of a criterion.
\<close>

record ('d, 'c) Env =
  typePrefix :: "string \<Rightarrow> bytes"
  Key :: string
  encode :: "keyList \<Rightarrow> error + bytes"
  decodeKeys :: "bytes \<Rightarrow> error + keyList"
  decodeValue :: "bytes \<Rightarrow> error + 'd"
  matchesAllCriteria :: "'c list \<Rightarrow> bytes \<Rightarrow> bool \<Rightarrow> string \<Rightarrow> 'd option \<Rightarrow> error + bool"
  hasMatchFunc :: "'c list \<Rightarrow> bool"

text \<open>
  \<open>type Index func(name string, value interface{}) ([]byte, error)\<close>: both results are
  returned side by side, and the byte slice may be \<open>nil\<close>.
\<close>

type_synonym 'd Index = "string \<Rightarrow> 'd \<Rightarrow> bytes option \<times> error option"

text \<open>
  A \<open>Storer\<close>: the type name and the map of indexes. \<open>Indexes\<close> lists the map in the order in
  which the \<open>range\<close> loop happens to visit it, which Go leaves open.
\<close>

record 'd Storer =
  Type :: string
  Indexes :: "(string \<times> 'd Index) list"

section \<open>Index maintenance\<close>

definition indexPrefix :: string where
  "indexPrefix = ''_bhIndex''"

definition iteratorKeyMinCacheSize :: nat where
  "iteratorKeyMinCacheSize = 100"

definition indexKeyPrefix :: "string \<Rightarrow> string \<Rightarrow> bytes" where
  "indexKeyPrefix typeName indexName = indexPrefix @ '':'' @ typeName @ '':'' @ indexName"

text \<open>
  The second half of \<open>indexUpdate\<close>, from the \<open>if delete\<close> on: change the list, then delete
  the entry when the list is empty, write the encoded list back otherwise.
\<close>

definition indexUpdate_store ::
  "('d, 'c) Env \<Rightarrow> Txn \<Rightarrow> bytes \<Rightarrow> keyList \<Rightarrow> bytes \<Rightarrow> bool \<Rightarrow> error option \<times> Txn" where
  "indexUpdate_store env t indexKey indexValue key delete =
     (let indexValue' = (if delete then keyList_remove indexValue key
                         else keyList_add indexValue key) in
      if length indexValue' = 0 then tx_Delete t indexKey
      else
        (case encode env indexValue' of
           Inl e \<Rightarrow> (Some e, t)
         | Inr iVal \<Rightarrow> tx_Set t indexKey iVal))"

text \<open>
  \<open>indexUpdate\<close>: the index function is called first; a \<open>nil\<close> key returns \<open>nil\<close> before its
  error is looked at. A missing entry is an empty list; an entry found is decoded.
\<close>

definition indexUpdate ::
  "('d, 'c) Env \<Rightarrow> string \<Rightarrow> string \<Rightarrow> 'd Index \<Rightarrow> Txn \<Rightarrow> bytes \<Rightarrow> 'd \<Rightarrow> bool
     \<Rightarrow> error option \<times> Txn" where
  "indexUpdate env typeName indexName indexFn t key val delete =
     (case indexFn indexName val of
        (None, _) \<Rightarrow> (None, t)
      | (Some _, Some e) \<Rightarrow> (Some e, t)
      | (Some ik, None) \<Rightarrow>
          (let indexKey = indexKeyPrefix typeName indexName @ ik in
           case tx_Get t indexKey of
             Inl e \<Rightarrow>
               (if e \<noteq> ErrKeyNotFound then (Some e, t)
                else indexUpdate_store env t indexKey [] key delete)
           | Inr item \<Rightarrow>
               (case item_Value (valueErr t) item (decodeKeys env) of
                  Inl e \<Rightarrow> (Some e, t)
                | Inr indexValue \<Rightarrow> indexUpdate_store env t indexKey indexValue key delete)))"

fun indexAdd_loop ::
  "('d, 'c) Env \<Rightarrow> string \<Rightarrow> (string \<times> 'd Index) list \<Rightarrow> Txn \<Rightarrow> bytes \<Rightarrow> 'd \<Rightarrow> error option \<times> Txn" where
  "indexAdd_loop env ty [] t key data = (None, t)"
| "indexAdd_loop env ty ((name, indexFn) # rest) t key data =
     (case indexUpdate env ty name indexFn t key data False of
        (Some e, t') \<Rightarrow> (Some e, t')
      | (None, t') \<Rightarrow> indexAdd_loop env ty rest t' key data)"

definition indexAdd ::
  "('d, 'c) Env \<Rightarrow> 'd Storer \<Rightarrow> Txn \<Rightarrow> bytes \<Rightarrow> 'd \<Rightarrow> error option \<times> Txn" where
  "indexAdd env storer t key data = indexAdd_loop env (Type storer) (Indexes storer) t key data"



section \<open>Index availability\<close>

text \<open>\<open>indexExists\<close> moves the iterator it is given; the moved iterator is returned with the answer.\<close>

definition indexExists :: "('d, 'c) Env \<Rightarrow> Iterator \<Rightarrow> string \<Rightarrow> string \<Rightarrow> bool \<times> Iterator" where
  "indexExists env it typeName indexName =
     (let iPrefix = indexKeyPrefix typeName indexName;
          tPrefix = typePrefix env typeName;
          it1 = iter_Seek it tPrefix in
      if \<not> iter_ValidForPrefix it1 tPrefix then (True, it1)
      else
        (let it2 = iter_Seek it1 iPrefix in
         if iter_ValidForPrefix it2 iPrefix then (True, it2)
         else (False, it2)))"

section \<open>Queries and the three key producers\<close>

record 'c Query =
  index :: string
  badIndex :: bool
  fieldCriteria :: "string \<Rightarrow> 'c list"

text \<open>
  \<open>newIterator\<close> stores one of three closures in \<open>nextKeys\<close>. A closure is the branch it
  was built in together with the variables it captured: the prefix, the criteria and, for
  the first, the type name.
\<close>

datatype 'c nextKeysFn =
    KeyFieldKeys bytes "'c list" string
  | WholeTypeKeys bytes
  | IndexedFieldKeys bytes "'c list"

text \<open>
  The loop of the first closure (the query runs on the key field): every record under the
  type prefix is decoded and matched, and the keys of the matching ones are collected.
  The first result is Go's pair \<open>([][]byte, error)\<close>, which is \<open>nil\<close> and the error, or the
  keys and \<open>nil\<close>.
\<close>

function keyFieldKeys_loop ::
  "('d, 'c) Env \<Rightarrow> bytes \<Rightarrow> 'c list \<Rightarrow> string \<Rightarrow> bytes list \<Rightarrow> Iterator
     \<Rightarrow> (error + bytes list) \<times> Iterator" where
  "keyFieldKeys_loop env pfx criteria typeName nKeys it =
     (if length nKeys < iteratorKeyMinCacheSize then
        (if \<not> iter_ValidForPrefix it pfx then (Inr nKeys, it)
         else
           (let item = iter_Item it in
            case item_Value (itemErr it) item (decodeValue env) of
              Inl e \<Rightarrow> (Inl e, it)
            | Inr val \<Rightarrow>
                (case matchesAllCriteria env criteria (fst item) True typeName (Some val) of
                   Inl e \<Rightarrow> (Inl e, it)
                 | Inr ok \<Rightarrow>
                     keyFieldKeys_loop env pfx criteria typeName
                       (if ok then nKeys @ [fst item] else nKeys) (iter_Next it))))
      else (Inr nKeys, it))"
  by pat_completeness auto
termination
  by (relation "measure (\<lambda>(env, pfx, criteria, typeName, nKeys, it). length (pos it))")
     (auto simp: iter_ValidForPrefix_def iter_Next_def split: list.splits)

declare keyFieldKeys_loop.simps [simp del]

text \<open>The loop of the second closure: every key under the type prefix, unfiltered.\<close>

function wholeTypeKeys_loop :: "bytes \<Rightarrow> bytes list \<Rightarrow> Iterator \<Rightarrow> (error + bytes list) \<times> Iterator" where
  "wholeTypeKeys_loop pfx nKeys it =
     (if length nKeys < iteratorKeyMinCacheSize then
        (if \<not> iter_ValidForPrefix it pfx then (Inr nKeys, it)
         else wholeTypeKeys_loop pfx (nKeys @ [fst (iter_Item it)]) (iter_Next it))
      else (Inr nKeys, it))"
  by pat_completeness auto
termination
  by (relation "measure (\<lambda>(pfx, nKeys, it). length (pos it))")
     (auto simp: iter_ValidForPrefix_def iter_Next_def split: list.splits)

declare wholeTypeKeys_loop.simps [simp del]

text \<open>
  The loop of the third closure: the index entries under the index prefix; the rest of an
  entry's key after the prefix is matched, and the whole key list of a matching entry is
  appended. The result of \<open>item.Value\<close> is not assigned to anything: when the read or the
  decoding fails, nothing is appended and the loop goes on.
\<close>

function indexedFieldKeys_loop ::
  "('d, 'c) Env \<Rightarrow> bytes \<Rightarrow> 'c list \<Rightarrow> bytes list \<Rightarrow> Iterator
     \<Rightarrow> (error + bytes list) \<times> Iterator" where
  "indexedFieldKeys_loop env pfx criteria nKeys it =
     (if length nKeys < iteratorKeyMinCacheSize then
        (if \<not> iter_ValidForPrefix it pfx then (Inr nKeys, it)
         else
           (let item = iter_Item it in
            case matchesAllCriteria env criteria (drop (length pfx) (fst item)) True [] None of
              Inl e \<Rightarrow> (Inl e, it)
            | Inr ok \<Rightarrow>
                (let nKeys' =
                   (if ok then
                      (case item_Value (itemErr it) item
                              (\<lambda>v. case decodeKeys env v of
                                      Inl e \<Rightarrow> Inl e
                                    | Inr keys \<Rightarrow> Inr (nKeys @ keys)) of
                         Inl _ \<Rightarrow> nKeys
                       | Inr appended \<Rightarrow> appended)
                    else nKeys)
                 in indexedFieldKeys_loop env pfx criteria nKeys' (iter_Next it))))
      else (Inr nKeys, it))"
  by pat_completeness auto
termination
  by (relation "measure (\<lambda>(env, pfx, criteria, nKeys, it). length (pos it))")
     (auto simp: iter_ValidForPrefix_def iter_Next_def split: list.splits)

declare indexedFieldKeys_loop.simps [simp del]

text \<open>Calling a closure: each starts from \<open>var nKeys [][]byte\<close>, the empty slice.\<close>

fun call_nextKeys ::
  "('d, 'c) Env \<Rightarrow> 'c nextKeysFn \<Rightarrow> Iterator \<Rightarrow> (error + bytes list) \<times> Iterator" where
  "call_nextKeys env (KeyFieldKeys pfx criteria typeName) it =
     keyFieldKeys_loop env pfx criteria typeName [] it"
| "call_nextKeys env (WholeTypeKeys pfx) it = wholeTypeKeys_loop pfx [] it"
| "call_nextKeys env (IndexedFieldKeys pfx criteria) it =
     indexedFieldKeys_loop env pfx criteria [] it"

section \<open>The iterator\<close>

record 'c iterator =
  keyCache :: "bytes list"
  nextKeys :: "'c nextKeysFn option"
  iter :: Iterator
  tx :: Txn
  err :: "error option"

text \<open>
  \<open>newIterator\<close> also writes \<open>query.badIndex\<close>; the query is returned with the iterator.
\<close>

definition newIterator ::
  "('d, 'c) Env \<Rightarrow> Txn \<Rightarrow> string \<Rightarrow> 'c Query \<Rightarrow> 'c iterator \<times> 'c Query" where
  "newIterator env t typeName query =
     (let i = \<lparr>keyCache = [], nextKeys = None, iter = tx_NewIterator t, tx = t, err = None\<rparr>;
          (i, query) =
            (if index query \<noteq> [] then
               (let (ex, it') = indexExists env (iter i) typeName (index query)
                in (i\<lparr>iter := it'\<rparr>, query\<lparr>badIndex := \<not> ex\<rparr>))
             else (i, query));
          criteria = fieldCriteria query (index query)
      in
        if index query = Key env \<and> \<not> badIndex query then
          (let pfx = typePrefix env typeName in
           (i\<lparr>iter := iter_Seek (iter i) pfx,
              nextKeys := Some (KeyFieldKeys pfx criteria typeName)\<rparr>, query))
        else if badIndex query \<or> hasMatchFunc env criteria then
          (let pfx = typePrefix env typeName in
           (i\<lparr>iter := iter_Seek (iter i) pfx,
              nextKeys := Some (WholeTypeKeys pfx)\<rparr>, query))
        else
          (let pfx = indexKeyPrefix typeName (index query) in
           (i\<lparr>iter := iter_Seek (iter i) pfx,
              nextKeys := Some (IndexedFieldKeys pfx criteria)\<rparr>, query)))"

text \<open>
  \<open>Next\<close>: the pair \<open>(key, value)\<close> it returns, \<open>nil\<close> being \<open>None\<close>, and the iterator after
  the call. The head of the cache is read only where the cache is not empty: it was not
  empty on entry, or a batch that is not empty has just been appended.
\<close>

definition iterator_refill :: "('d, 'c) Env \<Rightarrow> 'c nextKeysFn \<Rightarrow> 'c iterator \<Rightarrow> 'c iterator + 'c iterator" where
  "iterator_refill env fn i =
     (if length (keyCache i) = 0 then
        (case call_nextKeys env fn (iter i) of
           (Inl e, it') \<Rightarrow> Inl (i\<lparr>iter := it', err := Some e\<rparr>)
         | (Inr newKeys, it') \<Rightarrow>
             (if length newKeys = 0 then Inl (i\<lparr>iter := it'\<rparr>)
              else Inr (i\<lparr>iter := it', keyCache := keyCache i @ newKeys\<rparr>)))
      else Inr i)"

definition iterator_Next ::
  "('d, 'c) Env \<Rightarrow> 'c iterator \<Rightarrow> (bytes option \<times> bytes option) \<times> 'c iterator" where
  "iterator_Next env i =
     (if err i \<noteq> None then ((None, None), i)
      else
        (case nextKeys i of
           None \<Rightarrow> ((None, None), i)
         | Some fn \<Rightarrow>
             (case iterator_refill env fn i of
                Inl i' \<Rightarrow> ((None, None), i')
              | Inr i1 \<Rightarrow>
                  (let key = hd (keyCache i1);
                       i2 = i1\<lparr>keyCache := tl (keyCache i1)\<rparr> in
                   case tx_Get (tx i2) key of
                     Inl e \<Rightarrow> ((None, None), i2\<lparr>err := Some e\<rparr>)
                   | Inr item \<Rightarrow>
                       (case item_Value (valueErr (tx i2)) item Inr of
                          Inl e \<Rightarrow> ((None, None), i2\<lparr>err := Some e\<rparr>)
                        | Inr val \<Rightarrow> ((Some key, Some val), i2))))))"

definition iterator_Error :: "'c iterator \<Rightarrow> error option" where
  "iterator_Error i = err i"

text \<open>Calling \<open>Next\<close> \<open>n\<close> times, collecting what each call returns.\<close>

fun iterator_Next_times ::
  "('d, 'c) Env \<Rightarrow> nat \<Rightarrow> 'c iterator \<Rightarrow> (bytes option \<times> bytes option) list \<times> 'c iterator" where
  "iterator_Next_times env 0 i = ([], i)"
| "iterator_Next_times env (Suc n) i =
     (let (r, i') = iterator_Next env i;
          (rs, i'') = iterator_Next_times env n i'
      in (r # rs, i''))"

section \<open>A small instance of the collaborators\<close>

text \<open>
  An instance of the parameters, to run the functions above on concrete stores: records are
  their own bytes, a key list of one-byte keys is stored as the bytes in a row and a value
  holding \<open>!\<close> does not decode, a criterion compares the key it is given or stands for a
  match function, and an index function returns the record as the indexed value.
\<close>

datatype sample_criterion = KeyIs bytes | MatchFunc

definition sample_encode :: "keyList \<Rightarrow> error + bytes" where
  "sample_encode l =
     (if list_all (\<lambda>k. length k = 1) l then Inr (concat l) else Inl (Err ''encode''))"

definition sample_decodeKeys :: "bytes \<Rightarrow> error + keyList" where
  "sample_decodeKeys bs =
     (if CHR ''!'' \<in> set bs then Inl (Err ''decode'') else Inr (map (\<lambda>c. [c]) bs))"

fun sample_matches :: "sample_criterion \<Rightarrow> bytes \<Rightarrow> bool" where
  "sample_matches (KeyIs b) k = (k = b)"
| "sample_matches MatchFunc k = True"

definition sample_env :: "(bytes, sample_criterion) Env" where
  "sample_env =
     \<lparr>typePrefix = (\<lambda>ty. ''bh_'' @ ty @ '':''),
      Key = [],
      encode = sample_encode,
      decodeKeys = sample_decodeKeys,
      decodeValue = Inr,
      matchesAllCriteria = (\<lambda>cs k isKey ty val. Inr (list_all (\<lambda>c. sample_matches c k) cs)),
      hasMatchFunc = (\<lambda>cs. MatchFunc \<in> set cs)\<rparr>"

definition sample_index :: "bytes Index" where
  "sample_index name val = (Some val, None)"

definition failing_index :: "bytes Index" where
  "failing_index name val = (None, Some (Err ''index''))"

definition sample_tx :: "Item list \<Rightarrow> Txn" where
  "sample_tx es =
     \<lparr>entries = es, writes = [], getErr = (\<lambda>k. None), valueErr = (\<lambda>k. None),
      setErr = (\<lambda>k v. None), deleteErr = (\<lambda>k. None)\<rparr>"


definition sample_query :: "string \<Rightarrow> sample_criterion list \<Rightarrow> sample_criterion Query" where
  "sample_query field cs =
     \<lparr>index = field, badIndex = False, fieldCriteria = (\<lambda>name. if name = field then cs else [])\<rparr>"

definition sample_store :: "Item list" where
  "sample_store = [(''_bhIndex:T:fv'', ''a''), (''bh_T:a'', ''v'')]"

definition faulty_tx :: "Item list \<Rightarrow> Txn" where
  "faulty_tx es = (sample_tx es)\<lparr>valueErr := (\<lambda>k. Some (Err ''io''))\<rparr>"

text \<open>
  A store in which 101 records share one indexed value, so that one index entry holds 101
  keys, and a store whose only index entry does not decode.
\<close>

definition sample_bytes101 :: bytes where
  "sample_bytes101 = map char_of [100 ..< 201 :: nat]"

definition sample_keys101 :: keyList where
  "sample_keys101 = map (\<lambda>c. [c]) sample_bytes101"

definition big_store :: "Item list" where
  "big_store =
     (''_bhIndex:T:fv'', sample_bytes101) # map (\<lambda>k. (''bh_T:'' @ k, ''v'')) sample_keys101"

definition corrupt_store :: "Item list" where
  "corrupt_store = [(''_bhIndex:T:fv'', ''!''), (''bh_T:a'', ''v'')]"

text \<open>
  What a batch of keys is measured against: a producer's result is an error, or at most
  \<open>bound\<close> keys, and fewer than \<open>iteratorKeyMinCacheSize\<close> keys only with the iterator no
  longer on a key under the prefix.
\<close>

definition batch_ok :: "nat \<Rightarrow> bytes \<Rightarrow> (error + bytes list) \<times> Iterator \<Rightarrow> bool" where
  "batch_ok bound pfx r =
     (case fst r of
        Inl e \<Rightarrow> True
      | Inr ks \<Rightarrow> length ks \<le> bound \<and>
                  (length ks < iteratorKeyMinCacheSize \<longrightarrow> \<not> iter_ValidForPrefix (snd r) pfx))"

section \<open>Properties of the helpers\<close>

lemma bytes_Compare_ge: "(0 \<le> bytes_Compare a b) = (b \<le> a)"
  by (induction a b rule: bytes_Compare.induct) auto

lemma bytes_HasPrefix_iff: "bytes_HasPrefix s p = prefix p s"
proof
  assume "bytes_HasPrefix s p"
  then have "s = p @ drop (length p) s"
    by (metis append_take_drop_id bytes_HasPrefix_def)
  then show "prefix p s" by (metis prefixI)
next
  assume "prefix p s"
  then show "bytes_HasPrefix s p" by (auto simp: bytes_HasPrefix_def prefix_def)
qed

lemma Search_loop_done: "\<not> i < j \<Longrightarrow> Search_loop f i j = i"
  by (subst Search_loop.simps) simp

lemma Search_loop_left:
  "i < j \<Longrightarrow> f ((i + j) div 2) \<Longrightarrow> Search_loop f i j = Search_loop f i ((i + j) div 2)"
  by (subst Search_loop.simps) (simp add: Let_def)

lemma Search_loop_right:
  "i < j \<Longrightarrow> \<not> f ((i + j) div 2) \<Longrightarrow>
   Search_loop f i j = Search_loop f ((i + j) div 2 + 1) j"
  by (subst Search_loop.simps) (simp add: Let_def)

lemma Search_loop_bounds: "i \<le> j \<Longrightarrow> i \<le> Search_loop f i j \<and> Search_loop f i j \<le> j"
proof (induction f i j rule: Search_loop.induct)
  case (1 f i j)
  let ?h = "(i + j) div 2"
  show ?case
  proof (cases "i < j")
    case False
    with "1.prems" show ?thesis by (simp add: Search_loop_done)
  next
    case True
    from True have hb: "i \<le> ?h" "?h < j" by auto
    show ?thesis
    proof (cases "f ?h")
      case fh: True
      have nn: "\<not> \<not> f ?h" using fh by simp
      have "i \<le> Search_loop f i ?h \<and> Search_loop f i ?h \<le> ?h"
        by (rule "1.IH"(2)[OF True refl nn hb(1)])
      moreover have "Search_loop f i j = Search_loop f i ?h"
        using True fh by (rule Search_loop_left)
      ultimately show ?thesis using hb by linarith
    next
      case nfh: False
      have hj: "?h + 1 \<le> j" using hb by simp
      have "?h + 1 \<le> Search_loop f (?h + 1) j \<and> Search_loop f (?h + 1) j \<le> j"
        by (rule "1.IH"(1)[OF True refl nfh hj])
      moreover have "Search_loop f i j = Search_loop f (?h + 1) j"
        using True nfh by (rule Search_loop_right)
      ultimately show ?thesis using hb by linarith
    qed
  qed
qed

text \<open>
  On a predicate that is monotone on the indices below \<open>n\<close>, the search returns the point
  where it turns true.
\<close>

lemma Search_loop_split:
  "i \<le> j \<Longrightarrow> j \<le> n \<Longrightarrow> \<forall>a b. a \<le> b \<and> b < n \<and> f a \<longrightarrow> f b \<Longrightarrow>
   \<forall>k<i. \<not> f k \<Longrightarrow> \<forall>k. j \<le> k \<and> k < n \<longrightarrow> f k \<Longrightarrow>
   (\<forall>k < Search_loop f i j. \<not> f k) \<and> (\<forall>k. Search_loop f i j \<le> k \<and> k < n \<longrightarrow> f k)"
proof (induction f i j rule: Search_loop.induct)
  case (1 f i j)
  note mono = "1.prems"(3)
  let ?h = "(i + j) div 2"
  show ?case
  proof (cases "i < j")
    case False
    with "1.prems" show ?thesis by (simp add: Search_loop_done)
  next
    case True
    from True have hb: "i \<le> ?h" "?h < j" by auto
    with "1.prems"(2) have hn: "?h < n" by simp
    show ?thesis
    proof (cases "f ?h")
      case fh: True
      have eq: "Search_loop f i j = Search_loop f i ?h"
        using True fh by (rule Search_loop_left)
      have up: "\<forall>k. ?h \<le> k \<and> k < n \<longrightarrow> f k"
        using mono fh by blast
      have nn: "\<not> \<not> f ?h" using fh by simp
      have hle: "?h \<le> n" using hn by simp
      have "(\<forall>k < Search_loop f i ?h. \<not> f k) \<and>
            (\<forall>k. Search_loop f i ?h \<le> k \<and> k < n \<longrightarrow> f k)"
        by (rule "1.IH"(2)[OF True refl nn hb(1) hle mono "1.prems"(4) up])
      then show ?thesis unfolding eq .
    next
      case nfh: False
      have eq: "Search_loop f i j = Search_loop f (?h + 1) j"
        using True nfh by (rule Search_loop_right)
      have low: "\<forall>k<?h + 1. \<not> f k"
      proof (intro allI impI)
        fix k assume "k < ?h + 1"
        then have "k \<le> ?h" by simp
        with mono hn nfh show "\<not> f k" by blast
      qed
      have hj: "?h + 1 \<le> j" using hb by simp
      have "(\<forall>k < Search_loop f (?h + 1) j. \<not> f k) \<and>
            (\<forall>k. Search_loop f (?h + 1) j \<le> k \<and> k < n \<longrightarrow> f k)"
        by (rule "1.IH"(1)[OF True refl nfh hj "1.prems"(2) mono low "1.prems"(5)])
      then show ?thesis unfolding eq .
    qed
  qed
qed

lemma Search_mono:
  assumes "\<forall>a b. a \<le> b \<and> b < n \<and> f a \<longrightarrow> f b"
  shows "Search n f \<le> n \<and> (\<forall>k < Search n f. \<not> f k) \<and>
         (\<forall>k. Search n f \<le> k \<and> k < n \<longrightarrow> f k)"
proof -
  have z: "(0::nat) \<le> n" and nn: "n \<le> n" by simp_all
  have lo: "\<forall>k<(0::nat). \<not> f k" by simp
  have hi: "\<forall>k. n \<le> k \<and> k < n \<longrightarrow> f k" by auto
  have "Search_loop f 0 n \<le> n" using Search_loop_bounds[OF z] by blast
  with Search_loop_split[OF z nn assms lo hi] show ?thesis
    unfolding Search_def by blast
qed

lemma Search_le: "Search n f \<le> n"
  using Search_loop_bounds[of 0 n f] by (simp add: Search_def)

lemma keyList_search_sorted:
  fixes key :: bytes
  assumes "sorted v"
  defines "i \<equiv> Search (length v) (\<lambda>i. bytes_Compare (v ! i) key \<ge> 0)"
  shows "i \<le> length v \<and> (\<forall>k<i. v ! k < key) \<and> (\<forall>k. i \<le> k \<and> k < length v \<longrightarrow> key \<le> v ! k)"
proof -
  have "\<forall>a b. a \<le> b \<and> b < length v \<and> key \<le> v ! a \<longrightarrow> key \<le> v ! b"
    using assms(1) by (meson order_trans sorted_nth_mono)
  from Search_mono[of "length v" "\<lambda>i. bytes_Compare (v ! i) key \<ge> 0",
      unfolded bytes_Compare_ge, OF this]
  show ?thesis unfolding i_def bytes_Compare_ge by (auto simp: not_le)
qed

text \<open>The slice surgery of \<open>add\<close> and \<open>remove\<close>, as list operations.\<close>

lemma copy_shift_right:
  "i \<le> length v \<Longrightarrow> copy (drop (i + 1) (v @ [x])) (drop i (v @ [x])) = drop i v"
  by (simp add: copy_def)

lemma add_insert:
  assumes "i \<le> length v"
  shows "(take (i + 1) (v @ [x]) @ copy (drop (i + 1) (v @ [x])) (drop i (v @ [x])))[i := key]
     = take i v @ key # drop i v"
proof -
  have c: "copy (drop (i + 1) (v @ [x])) (drop i (v @ [x])) = drop i v"
    by (rule copy_shift_right[OF assms])
  have "i < length (v @ [x])" using assms by simp
  then have "take (Suc i) (v @ [x]) = take i (v @ [x]) @ [(v @ [x]) ! i]"
    by (rule take_Suc_conv_app_nth)
  moreover have "take i (v @ [x]) = take i v" using assms by simp
  ultimately have t: "take (i + 1) (v @ [x]) = take i v @ [(v @ [x]) ! i]" by simp
  have li: "length (take i v) = i" using assms by simp
  have "(take i v @ ((v @ [x]) ! i) # drop i v)[length (take i v) := key]
          = take i v @ key # drop i v"
    by (simp only: list_update_length)
  then show ?thesis unfolding c t li by simp
qed

lemma copy_shift_left:
  assumes a: "i < length v"
  shows "copy (drop i v) (drop (i + 1) v) = drop (Suc i) v @ [last v]"
proof -
  have "v \<noteq> []" using a by auto
  then have "v = butlast v @ [last v]" by simp
  then have "drop (length (butlast v)) v = [last v]"
    by (metis append_eq_conv_conj)
  then have "drop (length v - 1) v = [last v]" by simp
  moreover have "drop (length v - Suc i) (drop i v) = drop (length v - 1) v"
    using a by simp
  ultimately show ?thesis using a by (simp add: copy_def)
qed

lemma remove_delete:
  fixes v :: "bytes list"
  assumes "i < length v"
  shows "(let v1 = take i v @ copy (drop i v) (drop (i + 1) v); v2 = v1[length v1 - 1 := x]
          in take (length v2 - 1) v2) = take i v @ drop (Suc i) v"
proof -
  let ?w = "take i v @ drop (Suc i) v"
  have c: "take i v @ copy (drop i v) (drop (i + 1) v) = ?w @ [last v]"
    using copy_shift_left[OF assms] by simp
  have l: "length (?w @ [last v]) - 1 = length ?w" by simp
  have u: "(?w @ [last v])[length ?w := x] = ?w @ [x]" by (rule list_update_length)
  have l2: "length (?w @ [x]) - 1 = length ?w" by simp
  have tk: "\<And>w ys :: bytes list. take (length w) (w @ ys) = w" by simp
  have "take (length ?w) (?w @ [x]) = ?w" by (rule tk)
  then show ?thesis unfolding Let_def c l u l2 .
qed

lemma keyList_add_eq:
  "keyList_add v key =
     (let i = Search (length v) (\<lambda>i. bytes_Compare (v ! i) key \<ge> 0) in
      if i < length v \<and> v ! i = key then v else take i v @ key # drop i v)"
  unfolding keyList_add_def Let_def bytes_Equal_def add_insert[OF Search_le] ..

lemma keyList_remove_eq:
  "keyList_remove v key =
     (let i = Search (length v) (\<lambda>i. bytes_Compare (v ! i) key \<ge> 0) in
      if i < length v then take i v @ drop (Suc i) v else v)"
proof -
  let ?i = "Search (length v) (\<lambda>i. bytes_Compare (v ! i) key \<ge> 0)"
  show ?thesis
  proof (cases "?i < length v")
    case True
    from remove_delete[OF True, of "[]"] True show ?thesis
      unfolding keyList_remove_def by (simp add: Let_def)
  next
    case False
    then show ?thesis unfolding keyList_remove_def by (simp add: Let_def)
  qed
qed

section \<open>keyList: order, uniqueness, insertion and removal\<close>

lemma keyList_split_sorted:
  fixes key :: bytes
  assumes "sorted v"
  defines "i \<equiv> Search (length v) (\<lambda>i. bytes_Compare (v ! i) key \<ge> 0)"
  shows "i \<le> length v" and "\<forall>x\<in>set (take i v). x < key" and "\<forall>y\<in>set (drop i v). key \<le> y"
proof -
  note s = keyList_search_sorted[OF assms(1), of key, folded i_def]
  show "i \<le> length v" using s by blast
  show "\<forall>x\<in>set (take i v). x < key"
  proof
    fix x assume "x \<in> set (take i v)"
    then obtain k where "k < length (take i v)" "take i v ! k = x"
      by (auto simp: in_set_conv_nth)
    then show "x < key" using s by auto
  qed
  show "\<forall>y\<in>set (drop i v). key \<le> y"
  proof
    fix y assume "y \<in> set (drop i v)"
    then obtain k where "k < length (drop i v)" "drop i v ! k = y"
      by (auto simp: in_set_conv_nth)
    then show "key \<le> y" using s by auto
  qed
qed

lemma keyList_add_present:
  assumes "sorted v" "key \<in> set v"
  shows "keyList_add v key = v"
proof -
  let ?i = "Search (length v) (\<lambda>i. bytes_Compare (v ! i) key \<ge> 0)"
  note s = keyList_search_sorted[OF assms(1), of key]
  from assms(2) obtain k where k: "k < length v" "v ! k = key"
    by (auto simp: in_set_conv_nth)
  have "\<not> k < ?i" using s k by auto
  then have ik: "?i \<le> k" by simp
  with k have il: "?i < length v" by simp
  have "v ! ?i \<le> v ! k" using assms(1) ik k(1) by (rule sorted_nth_mono)
  moreover have "key \<le> v ! ?i" using s il by blast
  ultimately have "v ! ?i = key" using k(2) by simp
  with il show ?thesis unfolding keyList_add_eq by (simp add: Let_def)
qed

lemma keyList_add_sorted:
  assumes "sorted v" "distinct v"
  shows "sorted (keyList_add v key) \<and> distinct (keyList_add v key)"
proof (cases "key \<in> set v")
  case True
  with assms show ?thesis by (simp add: keyList_add_present)
next
  case False
  let ?i = "Search (length v) (\<lambda>i. bytes_Compare (v ! i) key \<ge> 0)"
  note s = keyList_split_sorted[OF assms(1), of key]
  have "\<not> (?i < length v \<and> v ! ?i = key)"
    using False by (metis nth_mem)
  then have eq: "keyList_add v key = take ?i v @ key # drop ?i v"
    unfolding keyList_add_eq Let_def by (rule if_not_P)
  have v: "v = take ?i v @ drop ?i v" by simp
  have st: "sorted (take ?i v)" "sorted (drop ?i v)"
    using assms(1) by (simp_all add: sorted_wrt_take sorted_wrt_drop)
  have d: "distinct (take ?i v) \<and> distinct (drop ?i v) \<and>
           set (take ?i v) \<inter> set (drop ?i v) = {}"
    using assms(2) by (metis append_take_drop_id distinct_append)
  have nk: "key \<notin> set (take ?i v)" "key \<notin> set (drop ?i v)"
    using False by (auto dest: in_set_takeD in_set_dropD)
  have "\<forall>x\<in>set (take ?i v). x \<le> key"
    using s(2) by (simp add: less_imp_le)
  moreover have "\<forall>x\<in>set (take ?i v). \<forall>y\<in>set (drop ?i v). x \<le> y"
    using s(2,3) by (meson less_imp_le order_trans)
  ultimately have "sorted (take ?i v @ key # drop ?i v)"
    using st s(3) by (simp add: sorted_append)
  moreover have "distinct (take ?i v @ key # drop ?i v)"
    using d nk by simp
  ultimately show ?thesis unfolding eq by simp
qed

lemma sorted_wrt_append_tl: "sorted_wrt P (xs @ ys) \<Longrightarrow> sorted_wrt P (xs @ tl ys)"
  by (cases ys) (auto simp: sorted_wrt_append)

lemma keyList_remove_sorted:
  assumes "sorted v" "distinct v"
  shows "sorted (keyList_remove v key) \<and> distinct (keyList_remove v key)"
proof -
  let ?i = "Search (length v) (\<lambda>i. bytes_Compare (v ! i) key \<ge> 0)"
  have "sorted_wrt (<) v" using assms by (simp add: strict_sorted_iff)
  then have "sorted_wrt (<) (take ?i v @ drop ?i v)" by simp
  then have "sorted_wrt (<) (take ?i v @ tl (drop ?i v))"
    by (rule sorted_wrt_append_tl)
  then have "sorted_wrt (<) (take ?i v @ drop (Suc ?i) v)"
    by (simp add: drop_Suc drop_tl)
  then show ?thesis using assms unfolding keyList_remove_eq
    by (simp add: Let_def strict_sorted_iff)
qed

lemma keyList_add_nonempty: "keyList_add v key \<noteq> []"
  unfolding keyList_add_eq by (auto simp: Let_def)

lemma keyList_remove_present:
  assumes "sorted v" "distinct v" "key \<in> set v"
  shows "keyList_remove v key = remove1 key v"
proof -
  let ?i = "Search (length v) (\<lambda>i. bytes_Compare (v ! i) key \<ge> 0)"
  note s = keyList_search_sorted[OF assms(1), of key]
  from assms(3) obtain k where k: "k < length v" "v ! k = key"
    by (auto simp: in_set_conv_nth)
  have "\<not> k < ?i" using s k by auto
  then have ik: "?i \<le> k" by simp
  with k have il: "?i < length v" by simp
  have "v ! ?i \<le> v ! k" using assms(1) ik k(1) by (rule sorted_nth_mono)
  moreover have "key \<le> v ! ?i" using s il by blast
  ultimately have vi: "v ! ?i = key" using k(2) by simp
  have v: "v = take ?i v @ key # drop (Suc ?i) v"
    using il vi by (metis id_take_nth_drop)
  have nk: "key \<notin> set (take ?i v)"
    using assms(2) v by (metis distinct_append disjoint_iff list.set_intros(1))
  have "remove1 key (take ?i v @ key # drop (Suc ?i) v) = take ?i v @ drop (Suc ?i) v"
    using nk by (simp add: remove1_append)
  with v have "remove1 key v = take ?i v @ drop (Suc ?i) v" by simp
  then show ?thesis using il unfolding keyList_remove_eq by (simp add: Let_def)
qed

lemma run_keyOps_sorted_from:
  "sorted v \<Longrightarrow> distinct v \<Longrightarrow>
   sorted (foldl apply_keyOp v ops) \<and> distinct (foldl apply_keyOp v ops)"
proof (induction ops arbitrary: v)
  case Nil
  then show ?case by simp
next
  case (Cons a ops)
  have "sorted (apply_keyOp v a) \<and> distinct (apply_keyOp v a)"
    using Cons.prems by (cases a) (simp_all add: keyList_add_sorted keyList_remove_sorted)
  then show ?case using Cons.IH by simp
qed

text \<open>
  Claim C1, at the input where the code departs from it: removing the absent key \<open>a\<close> from the
  list holding only \<open>b\<close> deletes \<open>b\<close>, because \<open>remove\<close> cuts out the element at the search
  position without comparing it with the key.
\<close>

theorem keyList_remove_absent_deletes_successor:
  "''a'' \<notin> set [''b''] \<and> keyList_remove [''b''] ''a'' = [] \<and> keyList_remove [''b''] ''a'' \<noteq> [''b'']"
  by code_simp

text \<open>
  Claim C5: starting from the empty list, after every step of any sequence of \<open>add\<close> and
  \<open>remove\<close> operations (that is, after every prefix \<open>take n ops\<close> of the sequence) the list is
  sorted in lexicographic byte order and has no duplicates, and \<open>add\<close> of a key the list
  already holds returns the list unchanged.
\<close>

theorem keyList_ops_sorted_distinct:
  "sorted (run_keyOps (take n ops)) \<and> distinct (run_keyOps (take n ops)) \<and>
   (key \<in> set (run_keyOps (take n ops)) \<longrightarrow>
      keyList_add (run_keyOps (take n ops)) key = run_keyOps (take n ops))"
proof -
  have sd: "sorted (run_keyOps (take n ops)) \<and> distinct (run_keyOps (take n ops))"
    unfolding run_keyOps_def by (rule run_keyOps_sorted_from) simp_all
  then show ?thesis by (simp add: keyList_add_present)
qed

theorem keyList_ops_sorted_distinct_witness:
  "run_keyOps (take 3 [Add ''k2'', Add ''k1'', Remove ''k1'', Add ''k0'']) = [''k2''] \<and>
   ''k2'' \<in> set (run_keyOps (take 3 [Add ''k2'', Add ''k1'', Remove ''k1'', Add ''k0''])) \<and>
   keyList_add (run_keyOps (take 3 [Add ''k2'', Add ''k1'', Remove ''k1'', Add ''k0''])) ''k2''
     = run_keyOps (take 3 [Add ''k2'', Add ''k1'', Remove ''k1'', Add ''k0''])"
proof -
  have r: "run_keyOps (take 3 [Add ''k2'', Add ''k1'', Remove ''k1'', Add ''k0'']) = [''k2'']"
    by code_simp
  have m: "''k2'' \<in> set (run_keyOps (take 3 [Add ''k2'', Add ''k1'', Remove ''k1'', Add ''k0'']))"
    unfolding r by simp
  from keyList_ops_sorted_distinct[of 3 "[Add ''k2'', Add ''k1'', Remove ''k1'', Add ''k0'']" "''k2''"] r m
  show ?thesis by blast
qed

section \<open>Index keys\<close>

lemma colon_split:
  "CHR '':'' \<notin> set a \<Longrightarrow> CHR '':'' \<notin> set b \<Longrightarrow> a @ CHR '':'' # x = b @ CHR '':'' # y \<Longrightarrow> a = b \<and> x = y"
proof (induction a arbitrary: b)
  case Nil
  then show ?case by (cases b) auto
next
  case (Cons c a)
  then show ?case by (cases b) auto
qed

text \<open>
  Claim C3 as stated fails: the components are joined by \<open>:\<close> and may contain it, so the
  pairs \<open>(a:b, c)\<close> and \<open>(a, b:c)\<close> get the same prefix.
\<close>

theorem indexKeyPrefix_collision:
  "(''a:b'', ''c'') \<noteq> (''a'', ''b:c'') \<and> indexKeyPrefix ''a:b'' ''c'' = indexKeyPrefix ''a'' ''b:c''"
  by (simp add: indexKeyPrefix_def)

text \<open>
  Claim C3, amended: \<open>indexKeyPrefix\<close> is a function of its arguments, and two distinct pairs
  whose type names contain no \<open>:\<close> get distinct prefixes.
\<close>

theorem indexKeyPrefix_injective_no_colon:
  "CHR '':'' \<notin> set typeName \<Longrightarrow> CHR '':'' \<notin> set typeName' \<Longrightarrow>
   (typeName, indexName) \<noteq> (typeName', indexName') \<Longrightarrow>
   indexKeyPrefix typeName indexName \<noteq> indexKeyPrefix typeName' indexName'"
  using colon_split[of typeName typeName' indexName indexName']
  by (auto simp: indexKeyPrefix_def)

theorem indexKeyPrefix_injective_no_colon_witness:
  "CHR '':'' \<notin> set ''user'' \<and> CHR '':'' \<notin> set ''users'' \<and>
   (''user'', ''sname'') \<noteq> (''users'', ''name'') \<and>
   indexKeyPrefix ''user'' ''sname'' \<noteq> indexKeyPrefix ''users'' ''name''"
  using indexKeyPrefix_injective_no_colon[of "''user''" "''users''" "''sname''" "''name''"]
  by simp

section \<open>Index maintenance: what is written\<close>



lemma map_of_entries_del: "map_of (entries_del k es) k = None"
  by (induction es) (auto simp: entries_del_def)

lemma tx_Delete_removes:
  "fst (tx_Delete t k) = None \<Longrightarrow> map_of (entries (snd (tx_Delete t k))) k = None"
  by (auto simp: tx_Delete_def map_of_entries_del split: option.splits)

lemma indexUpdate_store_writes:
  "\<exists>ops. writes (snd (indexUpdate_store env t ik l key del)) = writes t @ ops \<and>
     (\<forall>op\<in>set ops. case op of SetOp k v \<Rightarrow> (\<exists>l'. l' \<noteq> [] \<and> encode env l' = Inr v)
                            | DeleteOp k \<Rightarrow> del)"
proof -
  let ?l = "if del then keyList_remove l key else keyList_add l key"
  show ?thesis
  proof (cases "length ?l = 0")
    case True
    then have d: "del" using keyList_add_nonempty[of l key] by (auto split: if_splits)
    have "indexUpdate_store env t ik l key del = tx_Delete t ik"
      using True unfolding indexUpdate_store_def Let_def by simp
    then show ?thesis using d
      by (cases "deleteErr t ik") (auto simp: tx_Delete_def)
  next
    case False
    show ?thesis
    proof (cases "encode env ?l")
      case (Inl e)
      then have "indexUpdate_store env t ik l key del = (Some e, t)"
        using False unfolding indexUpdate_store_def Let_def by simp
      then show ?thesis by simp
    next
      case (Inr iVal)
      then have "indexUpdate_store env t ik l key del = tx_Set t ik iVal"
        using False unfolding indexUpdate_store_def Let_def by simp
      moreover have "\<exists>l'. l' \<noteq> [] \<and> encode env l' = Inr iVal"
        using False Inr by (intro exI[of _ ?l]) simp
      ultimately show ?thesis
        by (cases "setErr t ik iVal") (auto simp: tx_Set_def)
    qed
  qed
qed

lemma indexUpdate_cases:
  "indexUpdate env ty nm fn t key val del = (None, t) \<or>
   (\<exists>e. indexUpdate env ty nm fn t key val del = (Some e, t)) \<or>
   (\<exists>ik l. indexUpdate env ty nm fn t key val del = indexUpdate_store env t ik l key del)"
  unfolding indexUpdate_def Let_def
  by (auto split: prod.splits option.splits sum.splits)

lemma indexUpdate_writes:
  "\<exists>ops. writes (snd (indexUpdate env ty nm fn t key val del)) = writes t @ ops \<and>
     (\<forall>op\<in>set ops. case op of SetOp k v \<Rightarrow> (\<exists>l'. l' \<noteq> [] \<and> encode env l' = Inr v)
                            | DeleteOp k \<Rightarrow> del)"
  using indexUpdate_cases[of env ty nm fn t key val del]
proof (elim disjE exE)
  assume "indexUpdate env ty nm fn t key val del = (None, t)"
  then show ?thesis by simp
next
  fix e assume "indexUpdate env ty nm fn t key val del = (Some e, t)"
  then show ?thesis by simp
next
  fix ik l assume "indexUpdate env ty nm fn t key val del = indexUpdate_store env t ik l key del"
  then show ?thesis using indexUpdate_store_writes[of env t ik l key del] by simp
qed




lemma map_of_entries_put: "map_of (entries_put k v es) k = Some v"
  by (induction es) auto

lemma tx_Set_ok:
  "setErr t k v = None \<Longrightarrow>
   fst (tx_Set t k v) = None \<and> map_of (entries (snd (tx_Set t k v))) k = Some v \<and>
   writes (snd (tx_Set t k v)) = writes t @ [SetOp k v]"
  by (simp add: tx_Set_def map_of_entries_put)

lemma tx_Delete_ok:
  "deleteErr t k = None \<Longrightarrow>
   fst (tx_Delete t k) = None \<and> map_of (entries (snd (tx_Delete t k))) k = None \<and>
   writes (snd (tx_Delete t k)) = writes t @ [DeleteOp k]"
  by (simp add: tx_Delete_def map_of_entries_del)

lemma indexUpdate_lookup:
  assumes "indexFn indexName val = (Some ik, None)"
    and "(tx_Get t (indexKeyPrefix typeName indexName @ ik) = Inl ErrKeyNotFound \<and> stored = []) \<or>
         (\<exists>item. tx_Get t (indexKeyPrefix typeName indexName @ ik) = Inr item \<and>
                 item_Value (valueErr t) item (decodeKeys env) = Inr stored)"
  shows "indexUpdate env typeName indexName indexFn t key val delete =
         indexUpdate_store env t (indexKeyPrefix typeName indexName @ ik) stored key delete"
  using assms unfolding indexUpdate_def Let_def by auto

text \<open>
  Claim C6: \<open>indexUpdate\<close> never stores an empty key list. The list after \<open>add\<close> is never
  empty; every write \<open>indexUpdate\<close> makes is either a \<open>Set\<close> of the encoding of a non-empty
  list, or a \<open>Delete\<close>, and a \<open>Delete\<close> only in delete mode; the second half of
  \<open>indexUpdate\<close> encodes the list and writes it back in add mode, and deletes the index key
  in delete mode when the list after \<open>remove\<close> is empty. For \<open>indexUpdate\<close> as a whole:
  when the index function gives a key and no error, and the entry under the index key is
  missing (the stored list is then empty) or is found and decodes to the stored list, then
  in add mode \<open>indexUpdate\<close> is the \<open>Set\<close> of the encoding of the list after \<open>add\<close> (or
  the encoding error), and when the \<open>Set\<close> goes through, the store holds that encoding under
  the index key; in delete mode with an empty list after \<open>remove\<close> it is the \<open>Delete\<close> of
  the index key, and when the \<open>Delete\<close> goes through the store has no entry under the index
  key; in delete mode with a list that is not empty it writes that list back.
\<close>

theorem indexUpdate_no_empty_keyList:
  "keyList_add indexValue key \<noteq> [] \<and>
   (\<exists>ops. writes (snd (indexUpdate env typeName indexName indexFn t key val delete)) = writes t @ ops \<and>
      (\<forall>op\<in>set ops. case op of SetOp k v \<Rightarrow> (\<exists>l. l \<noteq> [] \<and> encode env l = Inr v)
                             | DeleteOp k \<Rightarrow> delete)) \<and>
   (\<not> delete \<longrightarrow>
      indexUpdate_store env t indexKey indexValue key delete =
        (case encode env (keyList_add indexValue key) of
           Inl e \<Rightarrow> (Some e, t)
         | Inr iVal \<Rightarrow> tx_Set t indexKey iVal)) \<and>
   (delete \<and> keyList_remove indexValue key = [] \<longrightarrow>
      indexUpdate_store env t indexKey indexValue key delete = tx_Delete t indexKey) \<and>
   (fst (tx_Delete t indexKey) = None \<longrightarrow>
      map_of (entries (snd (tx_Delete t indexKey))) indexKey = None) \<and>
   (indexFn indexName val = (Some ik, None) \<and>
    ((tx_Get t (indexKeyPrefix typeName indexName @ ik) = Inl ErrKeyNotFound \<and> stored = []) \<or>
     (\<exists>item. tx_Get t (indexKeyPrefix typeName indexName @ ik) = Inr item \<and>
             item_Value (valueErr t) item (decodeKeys env) = Inr stored)) \<longrightarrow>
      (\<not> delete \<longrightarrow>
         indexUpdate env typeName indexName indexFn t key val delete =
           (case encode env (keyList_add stored key) of
              Inl e \<Rightarrow> (Some e, t)
            | Inr iVal \<Rightarrow> tx_Set t (indexKeyPrefix typeName indexName @ ik) iVal)) \<and>
      (\<not> delete \<and> encode env (keyList_add stored key) = Inr newVal \<and>
       setErr t (indexKeyPrefix typeName indexName @ ik) newVal = None \<longrightarrow>
         fst (indexUpdate env typeName indexName indexFn t key val delete) = None \<and>
         map_of (entries (snd (indexUpdate env typeName indexName indexFn t key val delete)))
           (indexKeyPrefix typeName indexName @ ik) = Some newVal \<and>
         writes (snd (indexUpdate env typeName indexName indexFn t key val delete))
           = writes t @ [SetOp (indexKeyPrefix typeName indexName @ ik) newVal]) \<and>
      (delete \<and> keyList_remove stored key = [] \<longrightarrow>
         indexUpdate env typeName indexName indexFn t key val delete
           = tx_Delete t (indexKeyPrefix typeName indexName @ ik)) \<and>
      (delete \<and> keyList_remove stored key = [] \<and>
       deleteErr t (indexKeyPrefix typeName indexName @ ik) = None \<longrightarrow>
         fst (indexUpdate env typeName indexName indexFn t key val delete) = None \<and>
         map_of (entries (snd (indexUpdate env typeName indexName indexFn t key val delete)))
           (indexKeyPrefix typeName indexName @ ik) = None \<and>
         writes (snd (indexUpdate env typeName indexName indexFn t key val delete))
           = writes t @ [DeleteOp (indexKeyPrefix typeName indexName @ ik)]) \<and>
      (delete \<and> keyList_remove stored key \<noteq> [] \<longrightarrow>
         indexUpdate env typeName indexName indexFn t key val delete =
           (case encode env (keyList_remove stored key) of
              Inl e \<Rightarrow> (Some e, t)
            | Inr iVal \<Rightarrow> tx_Set t (indexKeyPrefix typeName indexName @ ik) iVal)))"
proof -
  let ?K = "indexKeyPrefix typeName indexName @ ik"
  let ?u = "indexUpdate env typeName indexName indexFn t key val delete"
  have c1: "keyList_add indexValue key \<noteq> []" by (rule keyList_add_nonempty)
  have c2: "\<exists>ops. writes (snd ?u) = writes t @ ops \<and>
      (\<forall>op\<in>set ops. case op of SetOp k v \<Rightarrow> (\<exists>l. l \<noteq> [] \<and> encode env l = Inr v)
                             | DeleteOp k \<Rightarrow> delete)"
    by (rule indexUpdate_writes)
  have c3: "\<not> delete \<longrightarrow>
      indexUpdate_store env t indexKey indexValue key delete =
        (case encode env (keyList_add indexValue key) of
           Inl e \<Rightarrow> (Some e, t)
         | Inr iVal \<Rightarrow> tx_Set t indexKey iVal)"
    using keyList_add_nonempty[of indexValue key]
    by (simp add: indexUpdate_store_def)
  have c4: "delete \<and> keyList_remove indexValue key = [] \<longrightarrow>
      indexUpdate_store env t indexKey indexValue key delete = tx_Delete t indexKey"
    by (simp add: indexUpdate_store_def)
  have c5: "fst (tx_Delete t indexKey) = None \<longrightarrow>
      map_of (entries (snd (tx_Delete t indexKey))) indexKey = None"
    using tx_Delete_removes by blast
  have c6: "(\<not> delete \<longrightarrow>
         ?u = (case encode env (keyList_add stored key) of
              Inl e \<Rightarrow> (Some e, t)
            | Inr iVal \<Rightarrow> tx_Set t ?K iVal)) \<and>
      (\<not> delete \<and> encode env (keyList_add stored key) = Inr newVal \<and>
       setErr t ?K newVal = None \<longrightarrow>
         fst ?u = None \<and> map_of (entries (snd ?u)) ?K = Some newVal \<and>
         writes (snd ?u) = writes t @ [SetOp ?K newVal]) \<and>
      (delete \<and> keyList_remove stored key = [] \<longrightarrow> ?u = tx_Delete t ?K) \<and>
      (delete \<and> keyList_remove stored key = [] \<and> deleteErr t ?K = None \<longrightarrow>
         fst ?u = None \<and> map_of (entries (snd ?u)) ?K = None \<and>
         writes (snd ?u) = writes t @ [DeleteOp ?K]) \<and>
      (delete \<and> keyList_remove stored key \<noteq> [] \<longrightarrow>
         ?u = (case encode env (keyList_remove stored key) of
              Inl e \<Rightarrow> (Some e, t)
            | Inr iVal \<Rightarrow> tx_Set t ?K iVal))"
    if h: "indexFn indexName val = (Some ik, None) \<and>
      ((tx_Get t ?K = Inl ErrKeyNotFound \<and> stored = []) \<or>
       (\<exists>item. tx_Get t ?K = Inr item \<and>
               item_Value (valueErr t) item (decodeKeys env) = Inr stored))"
  proof -
    have u: "?u = indexUpdate_store env t ?K stored key delete"
      using h by (intro indexUpdate_lookup) blast+
    have a: "\<not> delete \<longrightarrow>
         ?u = (case encode env (keyList_add stored key) of
              Inl e \<Rightarrow> (Some e, t)
            | Inr iVal \<Rightarrow> tx_Set t ?K iVal)"
      unfolding u using keyList_add_nonempty[of stored key]
      by (simp add: indexUpdate_store_def)
    have b: "\<not> delete \<and> encode env (keyList_add stored key) = Inr newVal \<and>
       setErr t ?K newVal = None \<longrightarrow>
         fst ?u = None \<and> map_of (entries (snd ?u)) ?K = Some newVal \<and>
         writes (snd ?u) = writes t @ [SetOp ?K newVal]"
    proof
      assume s: "\<not> delete \<and> encode env (keyList_add stored key) = Inr newVal \<and>
                 setErr t ?K newVal = None"
      with a have "?u = tx_Set t ?K newVal" by simp
      with s tx_Set_ok[of t ?K newVal] show "fst ?u = None \<and>
         map_of (entries (snd ?u)) ?K = Some newVal \<and>
         writes (snd ?u) = writes t @ [SetOp ?K newVal]" by simp
    qed
    have c: "delete \<and> keyList_remove stored key = [] \<longrightarrow> ?u = tx_Delete t ?K"
      unfolding u by (simp add: indexUpdate_store_def)
    have d: "delete \<and> keyList_remove stored key = [] \<and> deleteErr t ?K = None \<longrightarrow>
         fst ?u = None \<and> map_of (entries (snd ?u)) ?K = None \<and>
         writes (snd ?u) = writes t @ [DeleteOp ?K]"
    proof
      assume s: "delete \<and> keyList_remove stored key = [] \<and> deleteErr t ?K = None"
      with c have "?u = tx_Delete t ?K" by simp
      with s tx_Delete_ok[of t ?K] show "fst ?u = None \<and> map_of (entries (snd ?u)) ?K = None \<and>
         writes (snd ?u) = writes t @ [DeleteOp ?K]" by simp
    qed
    have e: "delete \<and> keyList_remove stored key \<noteq> [] \<longrightarrow>
         ?u = (case encode env (keyList_remove stored key) of
              Inl e \<Rightarrow> (Some e, t)
            | Inr iVal \<Rightarrow> tx_Set t ?K iVal)"
      unfolding u by (simp add: indexUpdate_store_def)
    from a b c d e show ?thesis by blast
  qed
  from c1 c2 c3 c4 c5 c6 show ?thesis by blast
qed


theorem indexUpdate_no_empty_keyList_witness:
  "fst (indexUpdate sample_env ''T'' ''f'' sample_index (sample_tx []) ''a'' ''v'' False) = None \<and>
   map_of (entries (snd (indexUpdate sample_env ''T'' ''f'' sample_index (sample_tx []) ''a'' ''v'' False)))
     ''_bhIndex:T:fv'' = Some ''a'' \<and>
   writes (snd (indexUpdate sample_env ''T'' ''f'' sample_index (sample_tx []) ''a'' ''v'' False))
     = [SetOp ''_bhIndex:T:fv'' ''a''] \<and>
   fst (indexUpdate sample_env ''T'' ''f'' sample_index
          (sample_tx [(''_bhIndex:T:fv'', ''a'')]) ''b'' ''v'' False) = None \<and>
   map_of (entries (snd (indexUpdate sample_env ''T'' ''f'' sample_index
                           (sample_tx [(''_bhIndex:T:fv'', ''a'')]) ''b'' ''v'' False)))
     ''_bhIndex:T:fv'' = Some ''ab'' \<and>
   keyList_remove [''a''] ''a'' = [] \<and>
   fst (indexUpdate sample_env ''T'' ''f'' sample_index
          (sample_tx [(''_bhIndex:T:fv'', ''a'')]) ''a'' ''v'' True) = None \<and>
   map_of (entries (snd (indexUpdate sample_env ''T'' ''f'' sample_index
                           (sample_tx [(''_bhIndex:T:fv'', ''a'')]) ''a'' ''v'' True)))
     ''_bhIndex:T:fv'' = None \<and>
   writes (snd (indexUpdate sample_env ''T'' ''f'' sample_index
                  (sample_tx [(''_bhIndex:T:fv'', ''a'')]) ''a'' ''v'' True))
     = [DeleteOp ''_bhIndex:T:fv''] \<and>
   indexUpdate_store sample_env (sample_tx [(''_bhIndex:T:fv'', ''a'')]) ''_bhIndex:T:fv'' [''a''] ''a'' True
     = tx_Delete (sample_tx [(''_bhIndex:T:fv'', ''a'')]) ''_bhIndex:T:fv''"
proof -
  let ?t0 = "sample_tx []"
  let ?t1 = "sample_tx [(''_bhIndex:T:fv'', ''a'')]"
  have k: "indexKeyPrefix ''T'' ''f'' @ ''v'' = ''_bhIndex:T:fv''"
    by (simp add: indexKeyPrefix_def indexPrefix_def)
  have i: "sample_index ''f'' ''v'' = (Some ''v'', None)" by (simp add: sample_index_def)
  have g0: "tx_Get ?t0 ''_bhIndex:T:fv'' = Inl ErrKeyNotFound" by code_simp
  have e0: "encode sample_env (keyList_add [] ''a'') = Inr ''a''" by code_simp
  have s0: "setErr ?t0 ''_bhIndex:T:fv'' ''a'' = None" by (simp add: sample_tx_def)
  have w0: "writes ?t0 = []" by (simp add: sample_tx_def)
  have g1: "tx_Get ?t1 ''_bhIndex:T:fv'' = Inr (''_bhIndex:T:fv'', ''a'')" by code_simp
  have v1: "item_Value (valueErr ?t1) (''_bhIndex:T:fv'', ''a'') (decodeKeys sample_env) = Inr [''a'']"
    by code_simp
  have e1: "encode sample_env (keyList_add [''a''] ''b'') = Inr ''ab''" by code_simp
  have s1: "setErr ?t1 ''_bhIndex:T:fv'' ''ab'' = None" by (simp add: sample_tx_def)
  have r1: "keyList_remove [''a''] ''a'' = []" by code_simp
  have d1: "deleteErr ?t1 ''_bhIndex:T:fv'' = None" by (simp add: sample_tx_def)
  have w1: "writes ?t1 = []" by (simp add: sample_tx_def)
  have l0: "(tx_Get ?t0 ''_bhIndex:T:fv'' = Inl ErrKeyNotFound \<and> ([] :: keyList) = []) \<or>
     (\<exists>item. tx_Get ?t0 ''_bhIndex:T:fv'' = Inr item \<and>
             item_Value (valueErr ?t0) item (decodeKeys sample_env) = Inr [])"
    using g0 by simp
  have l1: "(tx_Get ?t1 ''_bhIndex:T:fv'' = Inl ErrKeyNotFound \<and> [''a''] = []) \<or>
     (\<exists>item. tx_Get ?t1 ''_bhIndex:T:fv'' = Inr item \<and>
             item_Value (valueErr ?t1) item (decodeKeys sample_env) = Inr [''a''])"
    using g1 v1 by blast
  note A = indexUpdate_no_empty_keyList[where env = sample_env and typeName = "''T''"
      and indexName = "''f''" and indexFn = sample_index and t = ?t0 and key = "''a''"
      and val = "''v''" and delete = False and ik = "''v''" and stored = "[]"
      and newVal = "''a''", unfolded k]
  from A i l0 e0 s0
  have a: "fst (indexUpdate sample_env ''T'' ''f'' sample_index ?t0 ''a'' ''v'' False) = None \<and>
     map_of (entries (snd (indexUpdate sample_env ''T'' ''f'' sample_index ?t0 ''a'' ''v'' False)))
       ''_bhIndex:T:fv'' = Some ''a'' \<and>
     writes (snd (indexUpdate sample_env ''T'' ''f'' sample_index ?t0 ''a'' ''v'' False))
       = writes ?t0 @ [SetOp ''_bhIndex:T:fv'' ''a'']"
    by blast
  note B = indexUpdate_no_empty_keyList[where env = sample_env and typeName = "''T''"
      and indexName = "''f''" and indexFn = sample_index and t = ?t1 and key = "''b''"
      and val = "''v''" and delete = False and ik = "''v''" and stored = "[''a'']"
      and newVal = "''ab''", unfolded k]
  from B i l1 e1 s1
  have b: "fst (indexUpdate sample_env ''T'' ''f'' sample_index ?t1 ''b'' ''v'' False) = None \<and>
     map_of (entries (snd (indexUpdate sample_env ''T'' ''f'' sample_index ?t1 ''b'' ''v'' False)))
       ''_bhIndex:T:fv'' = Some ''ab''"
    by blast
  note C = indexUpdate_no_empty_keyList[where env = sample_env and typeName = "''T''"
      and indexName = "''f''" and indexFn = sample_index and t = ?t1 and key = "''a''"
      and val = "''v''" and delete = True and ik = "''v''" and stored = "[''a'']"
      and indexValue = "[''a'']" and indexKey = "''_bhIndex:T:fv''", unfolded k]
  from C i l1 r1 d1
  have c: "fst (indexUpdate sample_env ''T'' ''f'' sample_index ?t1 ''a'' ''v'' True) = None \<and>
     map_of (entries (snd (indexUpdate sample_env ''T'' ''f'' sample_index ?t1 ''a'' ''v'' True)))
       ''_bhIndex:T:fv'' = None \<and>
     writes (snd (indexUpdate sample_env ''T'' ''f'' sample_index ?t1 ''a'' ''v'' True))
       = writes ?t1 @ [DeleteOp ''_bhIndex:T:fv''] \<and>
     indexUpdate_store sample_env ?t1 ''_bhIndex:T:fv'' [''a''] ''a'' True
       = tx_Delete ?t1 ''_bhIndex:T:fv''"
    by blast
  from a b c r1 show ?thesis unfolding w0 w1 by simp
qed






section \<open>Index availability: seeking a prefix\<close>

lemma prefix_imp_le: "prefix p (k :: bytes) \<Longrightarrow> p \<le> k"
proof (induction p arbitrary: k)
  case Nil
  then show ?case by simp
next
  case (Cons a p)
  then show ?case by (cases k) auto
qed

lemma between_prefix: "p \<le> (k :: bytes) \<Longrightarrow> k \<le> p @ s \<Longrightarrow> prefix p k"
proof (induction p arbitrary: k)
  case Nil
  then show ?case by simp
next
  case (Cons a p)
  then show ?case by (cases k) (auto split: if_splits)
qed

lemma dropWhile_sorted_hd:
  assumes "sorted (map fst es)" "e \<in> set es" "\<not> fst e < (p :: bytes)"
  shows "dropWhile (\<lambda>e. fst e < p) es \<noteq> [] \<and> fst (hd (dropWhile (\<lambda>e. fst e < p) es)) \<le> fst e"
  using assms
proof (induction es)
  case Nil
  then show ?case by simp
next
  case (Cons x es)
  show ?case
  proof (cases "fst x < p")
    case True
    with Cons.prems have "e \<in> set es" by auto
    moreover have "sorted (map fst es)" using Cons.prems(1) by simp
    ultimately show ?thesis using Cons.IH Cons.prems(3) True by simp
  next
    case False
    have "fst x \<le> fst e" using Cons.prems(1,2) by auto
    with False show ?thesis by simp
  qed
qed

lemma seek_valid:
  assumes "sorted (map fst (items it))"
  shows "iter_ValidForPrefix (iter_Seek it p) p = (\<exists>e\<in>set (items it). bytes_HasPrefix (fst e) p)"
proof
  assume v: "iter_ValidForPrefix (iter_Seek it p) p"
  then obtain e rest where d: "dropWhile (\<lambda>e. fst e < p) (items it) = e # rest"
    and h: "bytes_HasPrefix (fst e) p"
    by (auto simp: iter_ValidForPrefix_def iter_Seek_def split: list.splits)
  from d have "e \<in> set (dropWhile (\<lambda>e. fst e < p) (items it))" by simp
  then have "e \<in> set (items it)" by (rule set_dropWhileD)
  with h show "\<exists>e\<in>set (items it). bytes_HasPrefix (fst e) p" by blast
next
  assume "\<exists>e\<in>set (items it). bytes_HasPrefix (fst e) p"
  then obtain e where e: "e \<in> set (items it)" "prefix p (fst e)"
    by (auto simp: bytes_HasPrefix_iff)
  then have ple: "p \<le> fst e" by (simp add: prefix_imp_le)
  then have nl: "\<not> fst e < p" by simp
  let ?d = "dropWhile (\<lambda>e. fst e < p) (items it)"
  from dropWhile_sorted_hd[OF assms e(1) nl]
  have ne: "?d \<noteq> []" and hle: "fst (hd ?d) \<le> fst e" by simp_all
  have "\<not> fst (hd ?d) < p" using ne hd_dropWhile by blast
  then have "p \<le> fst (hd ?d)" by simp
  moreover obtain s where "fst e = p @ s" using e(2) by (auto simp: prefix_def)
  ultimately have "prefix p (fst (hd ?d))" using hle between_prefix by metis
  with ne show "iter_ValidForPrefix (iter_Seek it p) p"
    by (cases ?d) (auto simp: iter_ValidForPrefix_def iter_Seek_def bytes_HasPrefix_iff)
qed

lemma items_iter_Seek: "items (iter_Seek it p) = items it"
  by (simp add: iter_Seek_def)

text \<open>
  Claim C9: over a store that yields its keys in ascending order, \<open>indexExists\<close> answers
  true exactly when no key lies under the type prefix or some key lies under the index
  prefix. So with no record of the type it is true for every index name, and with at least
  one record it is true if and only if an index entry exists under the index prefix.
\<close>

theorem indexExists_iff:
  "sorted (map fst (items it)) \<Longrightarrow>
   fst (indexExists env it typeName indexName) =
     ((\<forall>e\<in>set (items it). \<not> bytes_HasPrefix (fst e) (typePrefix env typeName)) \<or>
      (\<exists>e\<in>set (items it). bytes_HasPrefix (fst e) (indexKeyPrefix typeName indexName)))"
proof -
  assume s: "sorted (map fst (items it))"
  let ?t = "typePrefix env typeName" and ?i = "indexKeyPrefix typeName indexName"
  have s1: "sorted (map fst (items (iter_Seek it ?t)))" using s by (simp add: items_iter_Seek)
  have a: "iter_ValidForPrefix (iter_Seek it ?t) ?t = (\<exists>e\<in>set (items it). bytes_HasPrefix (fst e) ?t)"
    by (rule seek_valid[OF s])
  have b: "iter_ValidForPrefix (iter_Seek (iter_Seek it ?t) ?i) ?i
           = (\<exists>e\<in>set (items it). bytes_HasPrefix (fst e) ?i)"
    using seek_valid[OF s1, of ?i] by (simp add: items_iter_Seek)
  show ?thesis unfolding indexExists_def Let_def using a b by auto
qed

theorem indexExists_iff_witness:
  "sorted (map fst (items (tx_NewIterator (sample_tx sample_store)))) \<and>
   fst (indexExists sample_env (tx_NewIterator (sample_tx sample_store)) ''T'' ''f'') \<and>
   \<not> fst (indexExists sample_env (tx_NewIterator (sample_tx sample_store)) ''T'' ''g'') \<and>
   fst (indexExists sample_env (tx_NewIterator (sample_tx sample_store)) ''U'' ''g'')"
proof -
  let ?it = "tx_NewIterator (sample_tx sample_store)"
  have s: "sorted (map fst (items ?it))" by code_simp
  have i: "items ?it = [(''_bhIndex:T:fv'', ''a''), (''bh_T:a'', ''v'')]" by code_simp
  have p1: "bytes_HasPrefix ''_bhIndex:T:fv'' (indexKeyPrefix ''T'' ''f'')" by code_simp
  have p2: "bytes_HasPrefix ''bh_T:a'' (typePrefix sample_env ''T'')" by code_simp
  have p3: "\<not> bytes_HasPrefix ''_bhIndex:T:fv'' (indexKeyPrefix ''T'' ''g'')" by code_simp
  have p4: "\<not> bytes_HasPrefix ''bh_T:a'' (indexKeyPrefix ''T'' ''g'')" by code_simp
  have p5: "\<not> bytes_HasPrefix ''_bhIndex:T:fv'' (typePrefix sample_env ''U'')" by code_simp
  have p6: "\<not> bytes_HasPrefix ''bh_T:a'' (typePrefix sample_env ''U'')" by code_simp
  from indexExists_iff[OF s, of sample_env "''T''" "''f''"] p1 i
  have a: "fst (indexExists sample_env ?it ''T'' ''f'')" by simp
  from indexExists_iff[OF s, of sample_env "''T''" "''g''"] p2 p3 p4 i
  have b: "\<not> fst (indexExists sample_env ?it ''T'' ''g'')" by simp
  from indexExists_iff[OF s, of sample_env "''U''" "''g''"] p5 p6 i
  have c: "fst (indexExists sample_env ?it ''U'' ''g'')" by simp
  from s a b c show ?thesis by blast
qed

section \<open>Choice of the producer\<close>

lemma newIterator_query:
  "snd (newIterator env t typeName query) =
     (if index query \<noteq> [] then
        query\<lparr>badIndex := \<not> fst (indexExists env (tx_NewIterator t) typeName (index query))\<rparr>
      else query)"
  unfolding newIterator_def Let_def
  by (simp split: prod.splits)

text \<open>
  Claim C7: \<open>newIterator\<close> installs exactly one producer, chosen in this order: the key-field
  scan when the query's index field is \<open>Key\<close> and the index is not bad; otherwise the scan
  of the whole type when the index is bad or the criteria of the index field have a match
  function; otherwise the indexed lookup. The bad-index flag is the negated answer of
  \<open>indexExists\<close> when an index field is named and is left as it was otherwise. A query whose
  index field has a match-function criterion never gets the indexed lookup.
\<close>

theorem newIterator_strategy:
  "index (snd (newIterator env t typeName query)) = index query \<and>
   badIndex (snd (newIterator env t typeName query)) =
     (if index query \<noteq> [] then
        \<not> fst (indexExists env (tx_NewIterator t) typeName (index query))
      else badIndex query) \<and>
   nextKeys (fst (newIterator env t typeName query)) =
     Some (if index query = Key env \<and> \<not> badIndex (snd (newIterator env t typeName query)) then
             KeyFieldKeys (typePrefix env typeName) (fieldCriteria query (index query)) typeName
           else if badIndex (snd (newIterator env t typeName query)) \<or>
                   hasMatchFunc env (fieldCriteria query (index query)) then
             WholeTypeKeys (typePrefix env typeName)
           else
             IndexedFieldKeys (indexKeyPrefix typeName (index query))
               (fieldCriteria query (index query))) \<and>
   (hasMatchFunc env (fieldCriteria query (index query)) \<longrightarrow>
      (\<forall>p c. nextKeys (fst (newIterator env t typeName query)) \<noteq> Some (IndexedFieldKeys p c)))"
proof -
  let ?q = "snd (newIterator env t typeName query)"
  have q: "index ?q = index query"
    and b: "badIndex ?q = (if index query \<noteq> [] then
        \<not> fst (indexExists env (tx_NewIterator t) typeName (index query)) else badIndex query)"
    and f: "fieldCriteria ?q = fieldCriteria query"
    by (simp_all add: newIterator_query)
  have n: "nextKeys (fst (newIterator env t typeName query)) =
     Some (if index query = Key env \<and> \<not> badIndex ?q then
             KeyFieldKeys (typePrefix env typeName) (fieldCriteria query (index query)) typeName
           else if badIndex ?q \<or> hasMatchFunc env (fieldCriteria query (index query)) then
             WholeTypeKeys (typePrefix env typeName)
           else
             IndexedFieldKeys (indexKeyPrefix typeName (index query))
               (fieldCriteria query (index query)))"
  proof -
    obtain ex it' where ie: "indexExists env (tx_NewIterator t) typeName (index query) = (ex, it')"
      by (cases "indexExists env (tx_NewIterator t) typeName (index query)")
    show ?thesis
    proof (cases "index query = []")
      case True
      then have "badIndex ?q = badIndex query" using b by simp
      then show ?thesis using True
        unfolding newIterator_def Let_def by simp
    next
      case False
      then have "badIndex ?q = (\<not> ex)" using b ie by simp
      then show ?thesis using False ie
        unfolding newIterator_def Let_def by simp
    qed
  qed
  show ?thesis using q b n by auto
qed


theorem newIterator_strategy_witness:
  "hasMatchFunc sample_env (fieldCriteria (sample_query ''f'' [MatchFunc]) (index (sample_query ''f'' [MatchFunc]))) \<and>
   fst (indexExists sample_env (tx_NewIterator (sample_tx sample_store)) ''T'' ''f'') \<and>
   nextKeys (fst (newIterator sample_env (sample_tx sample_store) ''T'' (sample_query ''f'' [MatchFunc])))
     = Some (WholeTypeKeys ''bh_T:'') \<and>
   nextKeys (fst (newIterator sample_env (sample_tx sample_store) ''T'' (sample_query ''f'' [MatchFunc])))
     \<noteq> Some (IndexedFieldKeys (indexKeyPrefix ''T'' ''f'') [MatchFunc]) \<and>
   nextKeys (fst (newIterator sample_env (sample_tx sample_store) ''T'' (sample_query ''f'' [KeyIs ''v''])))
     = Some (IndexedFieldKeys ''_bhIndex:T:f'' [KeyIs ''v'']) \<and>
   nextKeys (fst (newIterator sample_env (sample_tx sample_store) ''T'' (sample_query [] [MatchFunc])))
     = Some (KeyFieldKeys ''bh_T:'' [MatchFunc] ''T'')"
proof -
  let ?q = "sample_query ''f'' [MatchFunc]"
  have h: "hasMatchFunc sample_env (fieldCriteria ?q (index ?q))" by code_simp
  have u: "fst (indexExists sample_env (tx_NewIterator (sample_tx sample_store)) ''T'' ''f'')"
    by code_simp
  have w: "nextKeys (fst (newIterator sample_env (sample_tx sample_store) ''T'' ?q))
     = Some (WholeTypeKeys ''bh_T:'')" by code_simp
  have x: "nextKeys (fst (newIterator sample_env (sample_tx sample_store) ''T'' (sample_query ''f'' [KeyIs ''v''])))
     = Some (IndexedFieldKeys ''_bhIndex:T:f'' [KeyIs ''v''])" by code_simp
  have k: "nextKeys (fst (newIterator sample_env (sample_tx sample_store) ''T'' (sample_query [] [MatchFunc])))
     = Some (KeyFieldKeys ''bh_T:'' [MatchFunc] ''T'')" by code_simp
  from newIterator_strategy[of sample_env "sample_tx sample_store" "''T''" ?q] h
  have "nextKeys (fst (newIterator sample_env (sample_tx sample_store) ''T'' ?q))
     \<noteq> Some (IndexedFieldKeys (indexKeyPrefix ''T'' ''f'') [MatchFunc])"
    by blast
  with h u w x k show ?thesis by blast
qed

section \<open>The error state of the iterator\<close>

lemma iterator_Next_err: "err i = Some e \<Longrightarrow> iterator_Next env i = ((None, None), i)"
  by (simp add: iterator_Next_def)

lemma iterator_Next_times_err:
  "err i = Some e \<Longrightarrow> iterator_Next_times env n i = (replicate n (None, None), i)"
  by (induction n) (simp_all add: iterator_Next_err)

lemma iterator_refill_err: "iterator_refill env fn i = Inr i' \<Longrightarrow> err i' = err i"
  unfolding iterator_refill_def
  by (auto split: if_splits prod.splits sum.splits)

lemma iterator_Next_records:
  "err i = None \<Longrightarrow> err (snd (iterator_Next env i)) = Some e \<Longrightarrow>
   fst (iterator_Next env i) = (None, None)"
  unfolding iterator_Next_def Let_def
  by (auto split: option.splits sum.splits dest: iterator_refill_err)

lemma iterator_Next_producer_error:
  "err i = None \<Longrightarrow> nextKeys i = Some fn \<Longrightarrow> keyCache i = [] \<Longrightarrow>
   fst (call_nextKeys env fn (iter i)) = Inl e \<Longrightarrow>
   iterator_Next env i = ((None, None), i\<lparr>iter := snd (call_nextKeys env fn (iter i)), err := Some e\<rparr>)"
  unfolding iterator_Next_def iterator_refill_def Let_def
  by (cases "call_nextKeys env fn (iter i)") simp

lemma iterator_Next_get_error:
  "err i = None \<Longrightarrow> nextKeys i = Some fn \<Longrightarrow> keyCache i = k # ks \<Longrightarrow>
   tx_Get (tx i) k = Inl e \<Longrightarrow>
   iterator_Next env i = ((None, None), i\<lparr>keyCache := ks, err := Some e\<rparr>)"
  unfolding iterator_Next_def iterator_refill_def Let_def
  by simp

lemma iterator_Next_value_error:
  "err i = None \<Longrightarrow> nextKeys i = Some fn \<Longrightarrow> keyCache i = k # ks \<Longrightarrow>
   tx_Get (tx i) k = Inr item \<Longrightarrow> item_Value (valueErr (tx i)) item Inr = Inl e \<Longrightarrow>
   iterator_Next env i = ((None, None), i\<lparr>keyCache := ks, err := Some e\<rparr>)"
  unfolding iterator_Next_def iterator_refill_def Let_def
  by simp

text \<open>
  Claim C8: the error of an iterator is sticky. With an error recorded, any number of calls
  of \<open>Next\<close> return \<open>(nil, nil)\<close> each and leave the iterator as it is, so \<open>Error\<close> keeps
  returning that error. The call of \<open>Next\<close> that records an error returns \<open>(nil, nil)\<close>, and
  an error is recorded when the producer fails on an empty cache, when the point lookup of
  the next cached key fails, and when the read of its value fails.
\<close>

theorem iterator_error_sticky:
  "(err i = Some e \<longrightarrow>
      iterator_Next_times env n i = (replicate n (None, None), i) \<and>
      iterator_Error (snd (iterator_Next_times env n i)) = Some e) \<and>
   (err i = None \<and> err (snd (iterator_Next env i)) = Some e \<longrightarrow>
      fst (iterator_Next env i) = (None, None)) \<and>
   (err i = None \<and> nextKeys i = Some fn \<and> keyCache i = [] \<and>
    fst (call_nextKeys env fn (iter i)) = Inl e \<longrightarrow>
      fst (iterator_Next env i) = (None, None) \<and> err (snd (iterator_Next env i)) = Some e) \<and>
   (err i = None \<and> nextKeys i = Some fn \<and> keyCache i = k # ks \<and> tx_Get (tx i) k = Inl e \<longrightarrow>
      fst (iterator_Next env i) = (None, None) \<and> err (snd (iterator_Next env i)) = Some e) \<and>
   (err i = None \<and> nextKeys i = Some fn \<and> keyCache i = k # ks \<and> tx_Get (tx i) k = Inr item \<and>
    item_Value (valueErr (tx i)) item Inr = Inl e \<longrightarrow>
      fst (iterator_Next env i) = (None, None) \<and> err (snd (iterator_Next env i)) = Some e)"
proof (intro conjI impI)
  assume "err i = Some e"
  then show "iterator_Next_times env n i = (replicate n (None, None), i)"
    by (rule iterator_Next_times_err)
  with \<open>err i = Some e\<close> show "iterator_Error (snd (iterator_Next_times env n i)) = Some e"
    by (simp add: iterator_Error_def)
next
  assume "err i = None \<and> err (snd (iterator_Next env i)) = Some e"
  then show "fst (iterator_Next env i) = (None, None)"
    using iterator_Next_records by blast
next
  assume h: "err i = None \<and> nextKeys i = Some fn \<and> keyCache i = [] \<and>
    fst (call_nextKeys env fn (iter i)) = Inl e"
  then have "iterator_Next env i
      = ((None, None), i\<lparr>iter := snd (call_nextKeys env fn (iter i)), err := Some e\<rparr>)"
    using iterator_Next_producer_error by blast
  then show "fst (iterator_Next env i) = (None, None)" "err (snd (iterator_Next env i)) = Some e"
    by simp_all
next
  assume h: "err i = None \<and> nextKeys i = Some fn \<and> keyCache i = k # ks \<and> tx_Get (tx i) k = Inl e"
  then have "iterator_Next env i = ((None, None), i\<lparr>keyCache := ks, err := Some e\<rparr>)"
    using iterator_Next_get_error by blast
  then show "fst (iterator_Next env i) = (None, None)" "err (snd (iterator_Next env i)) = Some e"
    by simp_all
next
  assume h: "err i = None \<and> nextKeys i = Some fn \<and> keyCache i = k # ks \<and> tx_Get (tx i) k = Inr item \<and>
    item_Value (valueErr (tx i)) item Inr = Inl e"
  then have "iterator_Next env i = ((None, None), i\<lparr>keyCache := ks, err := Some e\<rparr>)"
    using iterator_Next_value_error by blast
  then show "fst (iterator_Next env i) = (None, None)" "err (snd (iterator_Next env i)) = Some e"
    by simp_all
qed


theorem iterator_error_sticky_witness:
  "err (fst (newIterator sample_env (faulty_tx sample_store) ''T'' (sample_query [] []))) = None \<and>
   nextKeys (fst (newIterator sample_env (faulty_tx sample_store) ''T'' (sample_query [] [])))
     = Some (KeyFieldKeys ''bh_T:'' [] ''T'') \<and>
   keyCache (fst (newIterator sample_env (faulty_tx sample_store) ''T'' (sample_query [] []))) = [] \<and>
   fst (call_nextKeys sample_env (KeyFieldKeys ''bh_T:'' [] ''T'')
          (iter (fst (newIterator sample_env (faulty_tx sample_store) ''T'' (sample_query [] [])))))
     = Inl (Err ''io'') \<and>
   fst (iterator_Next sample_env
          (fst (newIterator sample_env (faulty_tx sample_store) ''T'' (sample_query [] []))))
     = (None, None) \<and>
   err (snd (iterator_Next sample_env
          (fst (newIterator sample_env (faulty_tx sample_store) ''T'' (sample_query [] [])))))
     = Some (Err ''io'') \<and>
   fst (iterator_Next_times sample_env 3
          (snd (iterator_Next sample_env
             (fst (newIterator sample_env (faulty_tx sample_store) ''T'' (sample_query [] []))))))
     = [(None, None), (None, None), (None, None)] \<and>
   iterator_Error (snd (iterator_Next_times sample_env 3
          (snd (iterator_Next sample_env
             (fst (newIterator sample_env (faulty_tx sample_store) ''T'' (sample_query [] [])))))))
     = Some (Err ''io'')"
proof -
  let ?i0 = "fst (newIterator sample_env (faulty_tx sample_store) ''T'' (sample_query [] []))"
  let ?fn = "KeyFieldKeys ''bh_T:'' [] ''T'' :: sample_criterion nextKeysFn"
  let ?i1 = "snd (iterator_Next sample_env ?i0)"
  have a: "err ?i0 = None" by code_simp
  have b: "nextKeys ?i0 = Some ?fn" by code_simp
  have c: "keyCache ?i0 = []" by code_simp
  have d: "fst (call_nextKeys sample_env ?fn (iter ?i0)) = Inl (Err ''io'')" by code_simp
  from iterator_error_sticky[of ?i0 "Err ''io''" sample_env 0 ?fn] a b c d
  have e: "fst (iterator_Next sample_env ?i0) = (None, None) \<and> err ?i1 = Some (Err ''io'')"
    by blast
  from iterator_error_sticky[of ?i1 "Err ''io''" sample_env 3] e
  have f: "iterator_Next_times sample_env 3 ?i1 = (replicate 3 (None, None), ?i1) \<and>
           iterator_Error (snd (iterator_Next_times sample_env 3 ?i1)) = Some (Err ''io'')"
    by blast
  have g: "replicate 3 (None, None) = [(None :: bytes option, None :: bytes option), (None, None), (None, None)]"
    by (simp add: numeral_3_eq_3)
  from f g have h: "fst (iterator_Next_times sample_env 3 ?i1) = [(None, None), (None, None), (None, None)]"
    by simp
  from a b c d e f h show ?thesis by blast
qed

section \<open>Batch sizes\<close>

lemma wholeTypeKeys_loop_bound:
  "length nKeys \<le> iteratorKeyMinCacheSize \<Longrightarrow>
   batch_ok iteratorKeyMinCacheSize pfx (wholeTypeKeys_loop pfx nKeys it)"
proof (induction pfx nKeys it rule: wholeTypeKeys_loop.induct)
  case (1 pfx nKeys it)
  show ?case
  proof (cases "length nKeys < iteratorKeyMinCacheSize")
    case False
    then have "wholeTypeKeys_loop pfx nKeys it = (Inr nKeys, it)"
      by (subst wholeTypeKeys_loop.simps) simp
    with "1.prems" False show ?thesis by (simp add: batch_ok_def)
  next
    case True
    show ?thesis
    proof (cases "iter_ValidForPrefix it pfx")
      case False
      then have "wholeTypeKeys_loop pfx nKeys it = (Inr nKeys, it)"
        using True by (subst wholeTypeKeys_loop.simps) simp
      with "1.prems" False show ?thesis by (simp add: batch_ok_def)
    next
      case v: True
      have nn: "\<not> \<not> iter_ValidForPrefix it pfx" using v by simp
      have l: "length (nKeys @ [fst (iter_Item it)]) \<le> iteratorKeyMinCacheSize"
        using True by simp
      have "wholeTypeKeys_loop pfx nKeys it
            = wholeTypeKeys_loop pfx (nKeys @ [fst (iter_Item it)]) (iter_Next it)"
        using True v by (subst wholeTypeKeys_loop.simps) simp
      with "1.IH"[OF True nn l] show ?thesis by simp
    qed
  qed
qed

lemma keyFieldKeys_loop_bound:
  "length nKeys \<le> iteratorKeyMinCacheSize \<Longrightarrow>
   batch_ok iteratorKeyMinCacheSize pfx (keyFieldKeys_loop env pfx criteria typeName nKeys it)"
proof (induction env pfx criteria typeName nKeys it rule: keyFieldKeys_loop.induct)
  case (1 env pfx criteria typeName nKeys it)
  let ?item = "iter_Item it"
  show ?case
  proof (cases "length nKeys < iteratorKeyMinCacheSize")
    case False
    then have "keyFieldKeys_loop env pfx criteria typeName nKeys it = (Inr nKeys, it)"
      by (subst keyFieldKeys_loop.simps) simp
    with "1.prems" False show ?thesis by (simp add: batch_ok_def)
  next
    case True
    show ?thesis
    proof (cases "iter_ValidForPrefix it pfx")
      case False
      then have "keyFieldKeys_loop env pfx criteria typeName nKeys it = (Inr nKeys, it)"
        using True by (subst keyFieldKeys_loop.simps) simp
      with "1.prems" False show ?thesis by (simp add: batch_ok_def)
    next
      case v: True
      have nn: "\<not> \<not> iter_ValidForPrefix it pfx" using v by simp
      show ?thesis
      proof (cases "item_Value (itemErr it) ?item (decodeValue env)")
        case (Inl e)
        then have "keyFieldKeys_loop env pfx criteria typeName nKeys it = (Inl e, it)"
          using True v by (subst keyFieldKeys_loop.simps) (simp add: Let_def)
        then show ?thesis by (simp add: batch_ok_def)
      next
        case iv: (Inr val)
        show ?thesis
        proof (cases "matchesAllCriteria env criteria (fst ?item) True typeName (Some val)")
          case (Inl e)
          then have "keyFieldKeys_loop env pfx criteria typeName nKeys it = (Inl e, it)"
            using True v iv by (subst keyFieldKeys_loop.simps) (simp add: Let_def)
          then show ?thesis by (simp add: batch_ok_def)
        next
          case m: (Inr ok)
          let ?n = "if ok then nKeys @ [fst ?item] else nKeys"
          have l: "length ?n \<le> iteratorKeyMinCacheSize" using True by simp
          have "keyFieldKeys_loop env pfx criteria typeName nKeys it
                = keyFieldKeys_loop env pfx criteria typeName ?n (iter_Next it)"
            using True v iv m by (subst keyFieldKeys_loop.simps) (simp add: Let_def)
          with "1.IH"[OF True nn refl iv m l] show ?thesis by simp
        qed
      qed
    qed
  qed
qed


lemma valid_pos: "iter_ValidForPrefix it pfx \<Longrightarrow> iter_Item it \<in> set (pos it)"
  by (auto simp: iter_ValidForPrefix_def iter_Item_def split: list.splits)

lemma pos_iter_Next: "set (pos (iter_Next it)) \<subseteq> set (pos it)"
  by (cases "pos it") (auto simp: iter_Next_def)

lemma indexedFieldKeys_loop_bound:
  "\<forall>item\<in>set (pos it). \<forall>l. decodeKeys env (snd item) = Inr l \<longrightarrow> length l \<le> m \<Longrightarrow>
   length nKeys \<le> iteratorKeyMinCacheSize - 1 + m \<Longrightarrow>
   batch_ok (iteratorKeyMinCacheSize - 1 + m) pfx (indexedFieldKeys_loop env pfx criteria nKeys it)"
proof (induction env pfx criteria nKeys it rule: indexedFieldKeys_loop.induct)
  case (1 env pfx criteria nKeys it)
  let ?item = "iter_Item it"
  note dec = "1.prems"(1)
  show ?case
  proof (cases "length nKeys < iteratorKeyMinCacheSize")
    case False
    then have "indexedFieldKeys_loop env pfx criteria nKeys it = (Inr nKeys, it)"
      by (subst indexedFieldKeys_loop.simps) simp
    with "1.prems"(2) False show ?thesis by (simp add: batch_ok_def)
  next
    case True
    show ?thesis
    proof (cases "iter_ValidForPrefix it pfx")
      case False
      then have "indexedFieldKeys_loop env pfx criteria nKeys it = (Inr nKeys, it)"
        using True by (subst indexedFieldKeys_loop.simps) simp
      with "1.prems"(2) False show ?thesis by (simp add: batch_ok_def)
    next
      case v: True
      have nn: "\<not> \<not> iter_ValidForPrefix it pfx" using v by simp
      show ?thesis
      proof (cases "matchesAllCriteria env criteria (drop (length pfx) (fst ?item)) True [] None")
        case (Inl e)
        then have "indexedFieldKeys_loop env pfx criteria nKeys it = (Inl e, it)"
          using True v by (subst indexedFieldKeys_loop.simps) (simp add: Let_def)
        then show ?thesis by (simp add: batch_ok_def)
      next
        case mt: (Inr ok)
        let ?n = "if ok then
                      (case item_Value (itemErr it) ?item
                              (\<lambda>v. case decodeKeys env v of
                                      Inl e \<Rightarrow> Inl e
                                    | Inr keys \<Rightarrow> Inr (nKeys @ keys)) of
                         Inl _ \<Rightarrow> nKeys
                       | Inr appended \<Rightarrow> appended)
                    else nKeys"
        have step: "indexedFieldKeys_loop env pfx criteria nKeys it
                = indexedFieldKeys_loop env pfx criteria ?n (iter_Next it)"
          using True v mt by (subst indexedFieldKeys_loop.simps) (simp add: Let_def)
        have item: "\<forall>l. decodeKeys env (snd ?item) = Inr l \<longrightarrow> length l \<le> m"
          using dec valid_pos[OF v] by blast
        have "length ?n \<le> length nKeys + m"
          using item by (auto simp: item_Value_def split: option.splits sum.splits)
        then have l: "length ?n \<le> iteratorKeyMinCacheSize - 1 + m"
          using True by simp
        have dec': "\<forall>item\<in>set (pos (iter_Next it)). \<forall>l. decodeKeys env (snd item) = Inr l \<longrightarrow> length l \<le> m"
          using dec pos_iter_Next[of it] by blast
        from "1.IH"[OF True nn refl mt refl dec' l] step show ?thesis by simp
      qed
    qed
  qed
qed

text \<open>
  Claim C4, amended: a call of the key-field scan or of the whole-type scan returns an error
  or at most \<open>iteratorKeyMinCacheSize\<close> keys; a call of the indexed lookup returns an error
  or at most \<open>iteratorKeyMinCacheSize - 1 + m\<close> keys, where no key list that decodes from
  an entry at or after the iterator's position has more than \<open>m\<close> keys (it stops taking
  entries once it holds \<open>iteratorKeyMinCacheSize\<close> keys or more, and takes the key list of
  an entry whole). Each returns fewer than \<open>iteratorKeyMinCacheSize\<close> keys only when the
  iterator has left the prefix.
\<close>

theorem nextKeys_batch_size:
  "batch_ok iteratorKeyMinCacheSize pfx (call_nextKeys env (KeyFieldKeys pfx criteria typeName) it) \<and>
   batch_ok iteratorKeyMinCacheSize pfx (call_nextKeys env (WholeTypeKeys pfx) it) \<and>
   ((\<forall>item\<in>set (pos it). \<forall>l. decodeKeys env (snd item) = Inr l \<longrightarrow> length l \<le> m) \<longrightarrow>
      batch_ok (iteratorKeyMinCacheSize - 1 + m) pfx
        (call_nextKeys env (IndexedFieldKeys pfx criteria) it))"
  using keyFieldKeys_loop_bound[of "[]" pfx env criteria typeName it]
        wholeTypeKeys_loop_bound[of "[]" pfx it]
        indexedFieldKeys_loop_bound[of it env m "[]" pfx criteria]
  by simp


theorem nextKeys_batch_size_witness:
  "fst (call_nextKeys sample_env (IndexedFieldKeys ''_bhIndex:T:f'' [])
          (iter_Seek (tx_NewIterator (sample_tx sample_store)) ''_bhIndex:T:f'')) = Inr [''a''] \<and>
   length [''a''] \<le> iteratorKeyMinCacheSize - 1 + 1 \<and>
   \<not> iter_ValidForPrefix
        (snd (call_nextKeys sample_env (IndexedFieldKeys ''_bhIndex:T:f'' [])
                (iter_Seek (tx_NewIterator (sample_tx sample_store)) ''_bhIndex:T:f'')))
        ''_bhIndex:T:f''"
proof -
  let ?it = "iter_Seek (tx_NewIterator (sample_tx sample_store)) ''_bhIndex:T:f''"
  let ?r = "call_nextKeys sample_env (IndexedFieldKeys ''_bhIndex:T:f'' []) ?it"
  have p: "pos ?it = [(''_bhIndex:T:fv'', ''a''), (''bh_T:a'', ''v'')]" by code_simp
  have d: "decodeKeys sample_env = sample_decodeKeys" by (simp add: sample_env_def)
  have h: "\<forall>item\<in>set (pos ?it). \<forall>l. decodeKeys sample_env (snd item) = Inr l \<longrightarrow> length l \<le> 1"
    unfolding p d by (auto simp: sample_decodeKeys_def)
  have r: "fst ?r = Inr [''a'']" by code_simp
  from nextKeys_batch_size[of "''_bhIndex:T:f''" sample_env "[]" "[]" ?it 1] h
  have "batch_ok (iteratorKeyMinCacheSize - 1 + 1) ''_bhIndex:T:f'' ?r" by blast
  with r show ?thesis by (simp add: batch_ok_def iteratorKeyMinCacheSize_def)
qed

lemma indexedFieldKeys_one_entry:
  assumes p: "pos it = (k, v) # rest"
    and h: "bytes_HasPrefix k pfx"
    and m: "matchesAllCriteria env cs (drop (length pfx) k) True [] None = Inr True"
    and e: "itemErr it k = None"
    and d: "decodeKeys env v = Inr keys"
    and l: "iteratorKeyMinCacheSize \<le> length keys"
  shows "call_nextKeys env (IndexedFieldKeys pfx cs) it = (Inr keys, iter_Next it)"
proof -
  have v: "iter_ValidForPrefix it pfx" using p h by (simp add: iter_ValidForPrefix_def)
  have i: "iter_Item it = (k, v)" using p by (simp add: iter_Item_def)
  have z: "length ([] :: bytes list) < iteratorKeyMinCacheSize"
    by (simp add: iteratorKeyMinCacheSize_def)
  have "indexedFieldKeys_loop env pfx cs [] it = indexedFieldKeys_loop env pfx cs keys (iter_Next it)"
    using v i z m e d
    by (subst indexedFieldKeys_loop.simps) (simp add: Let_def item_Value_def)
  also have "\<dots> = (Inr keys, iter_Next it)"
    using l by (subst indexedFieldKeys_loop.simps) simp
  finally show ?thesis by simp
qed


lemma sample_bytes101_no_bang: "CHR ''!'' \<notin> set sample_bytes101"
proof
  assume "CHR ''!'' \<in> set sample_bytes101"
  then obtain n :: nat where n: "100 \<le> n" "n < 201" "char_of n = CHR ''!''"
    by (auto simp: sample_bytes101_def)
  from n(3) have "of_char (char_of n) = (of_char CHR ''!'' :: nat)" by simp
  then have "n mod 256 = 33" by (simp add: of_char_of)
  with n(1,2) show False by simp
qed

lemma decode_sample_bytes101: "decodeKeys sample_env sample_bytes101 = Inr sample_keys101"
  using sample_bytes101_no_bang
  by (simp add: sample_env_def sample_decodeKeys_def sample_keys101_def)

lemma length_sample_keys101: "length sample_keys101 = 101"
  by (simp add: sample_keys101_def sample_bytes101_def)

lemma char_of_mono: "x \<le> y \<Longrightarrow> y < 256 \<Longrightarrow> char_of (x :: nat) \<le> char_of y"
  by (simp add: less_eq_char_def of_char_of)

lemma append_same_le: "(a :: bytes) \<le> b \<Longrightarrow> p @ a \<le> p @ b"
  by (induction p) simp_all

lemma sorted_records:
  "hi \<le> 256 \<Longrightarrow> sorted (map (\<lambda>n :: nat. p @ [char_of n]) [lo ..< hi])"
proof -
  assume hi: "hi \<le> 256"
  let ?f = "\<lambda>n :: nat. p @ [char_of n]"
  have "sorted_wrt (\<lambda>x y. ?f x \<le> ?f y) [lo ..< hi]"
  proof (rule sorted_wrt_mono_rel[of _ "(\<le>)"])
    fix x y :: nat assume "x \<in> set [lo ..< hi]" "y \<in> set [lo ..< hi]" "x \<le> y"
    then have "char_of x \<le> char_of y" using char_of_mono[of x y] hi by simp
    then have "[char_of x] \<le> [char_of y]"
      by (simp add: order_le_less del: char_of_eq_iff)
    then show "?f x \<le> ?f y" by (rule append_same_le)
  next
    show "sorted_wrt (\<le>) [lo ..< hi]" by simp
  qed
  then show ?thesis by (simp add: sorted_wrt_map)
qed

lemma big_store_sorted: "sorted (map fst big_store)"
proof -
  let ?f = "\<lambda>n :: nat. ''bh_T:'' @ [char_of n]"
  have m: "map fst big_store = ''_bhIndex:T:fv'' # map ?f [100 ..< 201]"
    by (simp add: big_store_def sample_keys101_def sample_bytes101_def comp_def
          del: upt_rec_numeral)
  have "sorted (map ?f [100 ..< 201])" by (rule sorted_records) simp
  moreover have "\<forall>k\<in>set (map ?f [100 ..< 201]). ''_bhIndex:T:fv'' \<le> k"
    by (simp del: upt_rec_numeral)
  ultimately show ?thesis unfolding m by (simp del: upt_rec_numeral)
qed
text \<open>
  Claim C4 as stated fails for the indexed lookup: on a store where 101 records share one
  indexed value, one call of the producer returns the 101 keys of that index entry.
\<close>

theorem indexed_lookup_batch_exceeds_cache_size:
  "sorted (map fst big_store) \<and>
   fst (call_nextKeys sample_env (IndexedFieldKeys ''_bhIndex:T:f'' [])
          (iter_Seek (tx_NewIterator (sample_tx big_store)) ''_bhIndex:T:f''))
     = Inr sample_keys101 \<and>
   length sample_keys101 = 101 \<and>
   \<not> length sample_keys101 \<le> iteratorKeyMinCacheSize"
proof -
  let ?it = "iter_Seek (tx_NewIterator (sample_tx big_store)) ''_bhIndex:T:f''"
  have p: "pos ?it = (''_bhIndex:T:fv'', sample_bytes101) #
                      map (\<lambda>k. (''bh_T:'' @ k, ''v'')) sample_keys101"
    by (simp add: iter_Seek_def tx_NewIterator_def sample_tx_def big_store_def)
  have h: "bytes_HasPrefix ''_bhIndex:T:fv'' ''_bhIndex:T:f''"
    by (simp add: bytes_HasPrefix_def)
  have m: "matchesAllCriteria sample_env [] (drop (length ''_bhIndex:T:f'') ''_bhIndex:T:fv'') True [] None
           = Inr True"
    by (simp add: sample_env_def)
  have e: "itemErr ?it ''_bhIndex:T:fv'' = None"
    by (simp add: iter_Seek_def tx_NewIterator_def sample_tx_def)
  have l: "iteratorKeyMinCacheSize \<le> length sample_keys101"
    by (simp add: length_sample_keys101 iteratorKeyMinCacheSize_def)
  from indexedFieldKeys_one_entry[OF p h m e decode_sample_bytes101 l]
  show ?thesis by (simp add: big_store_sorted length_sample_keys101 iteratorKeyMinCacheSize_def)
qed


section \<open>Errors that are not passed on\<close>

text \<open>
  Claim C2, at inputs where the code departs from it. An index entry whose value does not
  decode: the indexed lookup skips it, the producer returns an empty batch and no error, and
  \<open>Next\<close> ends the iteration with no error recorded. An index function that returns no
  key and an error: \<open>indexUpdate\<close> and \<open>indexAdd\<close> return no error and write nothing.
\<close>

theorem codec_errors_dropped:
  "decodeKeys sample_env ''!'' = Inl (Err ''decode'') \<and>
   nextKeys (fst (newIterator sample_env (sample_tx corrupt_store) ''T'' (sample_query ''f'' [])))
     = Some (IndexedFieldKeys ''_bhIndex:T:f'' []) \<and>
   fst (call_nextKeys sample_env (IndexedFieldKeys ''_bhIndex:T:f'' [])
          (iter (fst (newIterator sample_env (sample_tx corrupt_store) ''T'' (sample_query ''f'' [])))))
     = Inr [] \<and>
   fst (iterator_Next sample_env
          (fst (newIterator sample_env (sample_tx corrupt_store) ''T'' (sample_query ''f'' []))))
     = (None, None) \<and>
   iterator_Error (snd (iterator_Next sample_env
          (fst (newIterator sample_env (sample_tx corrupt_store) ''T'' (sample_query ''f'' [])))))
     = None \<and>
   failing_index ''f'' ''v'' = (None, Some (Err ''index'')) \<and>
   fst (indexUpdate sample_env ''T'' ''f'' failing_index (sample_tx []) ''a'' ''v'' False) = None \<and>
   fst (indexAdd sample_env \<lparr>Type = ''T'', Indexes = [(''f'', failing_index)]\<rparr> (sample_tx []) ''a'' ''v'')
     = None \<and>
   entries (snd (indexAdd sample_env \<lparr>Type = ''T'', Indexes = [(''f'', failing_index)]\<rparr>
                   (sample_tx []) ''a'' ''v'')) = []"
  by code_simp

end
